theory Spec2Isabelle
  imports Complex_Main "HOL-Library.Word" "HOL-Library.Sublist" "HOL-Library.Multiset"
begin

unbundle bit_operations_syntax

section \<open>Strings and numbers of the runtime\<close>

text \<open>
  A JavaScript string is a sequence of UTF-16 code units. Literals of the source are
  written \<open>js ''...''\<close>; every character of such a literal is one ASCII code unit.
\<close>

type_synonym jsstring = "16 word list"

definition js :: "string \<Rightarrow> jsstring" where
  "js s = map of_char s"

text \<open>
  \<open>String.prototype.trim\<close> removes the WhiteSpace and LineTerminator code points of
  ECMA-262 from both ends: TAB, LF, VT, FF, CR, SPACE, NBSP, U+1680, U+2000 to U+200A,
  U+2028, U+2029, U+202F, U+205F, U+3000 and U+FEFF. All of them are single code units.
\<close>

definition isWhiteSpace :: "16 word \<Rightarrow> bool" where
  "isWhiteSpace c \<longleftrightarrow>
     c = 0x0009 \<or> c = 0x000A \<or> c = 0x000B \<or> c = 0x000C \<or> c = 0x000D \<or> c = 0x0020 \<or>
     c = 0x00A0 \<or> c = 0x1680 \<or> (0x2000 \<le> c \<and> c \<le> 0x200A) \<or> c = 0x2028 \<or>
     c = 0x2029 \<or> c = 0x202F \<or> c = 0x205F \<or> c = 0x3000 \<or> c = 0xFEFF"

definition trim :: "jsstring \<Rightarrow> jsstring" where
  "trim s = rev (dropWhile isWhiteSpace (rev (dropWhile isWhiteSpace s)))"

text \<open>
  A JavaScript number is an IEEE 754 binary64 value. \<open>Finite q\<close> is the double whose
  value is the rational \<open>q\<close> (\<open>Finite 0\<close> is \<open>+0\<close>); the other constructors are
  \<open>-0\<close>, \<open>NaN\<close> and the two infinities.
\<close>

datatype jsnumber = Finite rat | NegZero | NaN | PosInfinity | NegInfinity

text \<open>
  \<open>Date.now()\<close> returns a whole number of milliseconds, of magnitude at most
  \<open>8.64e15\<close>; \<open>Number.prototype.toString(36)\<close> of such a value is its exact base-36
  numeral with the digits \<open>0-9a-z\<close>, and a leading \<open>-\<close> when it is negative.
\<close>

definition digit36 :: "nat \<Rightarrow> 16 word" where
  "digit36 d = (if d < 10 then 0x30 + of_nat d else 0x61 + of_nat (d - 10))"

fun digits36 :: "nat \<Rightarrow> jsstring" where
  "digits36 n = (if n < 36 then [digit36 n] else digits36 (n div 36) @ [digit36 (n mod 36)])"

declare digits36.simps [simp del]

definition toString36 :: "int \<Rightarrow> jsstring" where
  "toString36 n = (if n < 0 then 0x2D # digits36 (nat (- n)) else digits36 (nat n))"

text \<open>Reading a base-36 numeral back, to show that \<open>toString36\<close> loses nothing.\<close>

definition dval36 :: "16 word \<Rightarrow> nat" where
  "dval36 c = (if unat c < 58 then unat c - 48 else unat c - 87)"

definition val36 :: "jsstring \<Rightarrow> nat" where
  "val36 s = foldl (\<lambda>acc c. acc * 36 + dval36 c) 0 s"

section \<open>Numbers: rounding to a double and printing it\<close>

text \<open>
  \<open>ndigits b n\<close> is the number of base-\<open>b\<close> digits of \<open>n\<close>, and \<open>ilog b q\<close> the
  integer part of the base-\<open>b\<close> logarithm of a positive rational.
\<close>

fun ndigits :: "nat \<Rightarrow> nat \<Rightarrow> nat" where
  "ndigits b n = (if n < b \<or> b < 2 then 1 else Suc (ndigits b (n div b)))"

declare ndigits.simps [simp del]

definition ilog :: "nat \<Rightarrow> rat \<Rightarrow> int" where
  "ilog b q =
     (let (num, den) = quotient_of q;
          d = int (ndigits b (nat num)) - int (ndigits b (nat den))
      in if of_nat b powi d \<le> q then d else d - 1)"

text \<open>
  The Number value of a positive rational (ECMA-262, 6.1.6.1): round to the nearest
  binary64 value, ties to the even significand; the exponent is at least \<open>-1022\<close>
  (subnormal numbers), and a result of \<open>2^1024\<close> or more is infinite. \<open>toDouble neg q\<close>
  is the double for the magnitude \<open>q\<close> with the sign \<open>neg\<close>.
\<close>

definition round_half_even :: "rat \<Rightarrow> int" where
  "round_half_even x =
     (let f = \<lfloor>x\<rfloor>; r = x - of_int f
      in if r < 1 / 2 then f else if 1 / 2 < r then f + 1 else if even f then f else f + 1)"

definition roundPos :: "rat \<Rightarrow> rat option" where
  "roundPos q =
     (let e = max (ilog 2 q) (- 1022);
          ulp = 2 powi (e - 52);
          v = of_int (round_half_even (q / ulp)) * ulp
      in if 2 ^ 1024 \<le> v then None else Some v)"

definition toDouble :: "bool \<Rightarrow> rat \<Rightarrow> jsnumber" where
  "toDouble neg q =
     (if q = 0 then (if neg then NegZero else Finite 0)
      else case roundPos q of
        None \<Rightarrow> (if neg then NegInfinity else PosInfinity)
      | Some v \<Rightarrow> if v = 0 then (if neg then NegZero else Finite 0)
                  else Finite (if neg then - v else v))"

text \<open>
  \<open>Number::toString\<close> in radix 10 (ECMA-262, 6.1.6.1.20): for a positive finite \<open>x\<close>
  take \<open>k\<close>, \<open>s\<close> and \<open>n\<close> with \<open>k\<close> as small as possible such that \<open>s\<close> has \<open>k\<close> digits
  and \<open>s * 10^(n-k)\<close> has the Number value \<open>x\<close>; of several \<open>s\<close> the one closest to \<open>x\<close>.
  \<open>candidate x n0 k\<close> tries the two \<open>k\<close>-digit numbers around \<open>x\<close>, where \<open>n0\<close> is the
  number of digits of the integer part of \<open>x\<close>; \<open>shortest\<close> tries \<open>k = 1, 2, ...\<close> up to
  17 digits, which identify every double (\<open>seventeen_digits\<close> below), so that the
  empty result of \<open>positiveToString\<close> does not arise for a double (\<open>shortest_double\<close>).
  \<open>formatNumber\<close> lays the digits out as the standard says: plain digits, a decimal
  point, or the exponent notation.
\<close>

fun digits10 :: "nat \<Rightarrow> jsstring" where
  "digits10 n = (if n < 10 then [0x30 + of_nat n] else digits10 (n div 10) @ [0x30 + of_nat (n mod 10)])"

declare digits10.simps [simp del]

definition candidate :: "rat \<Rightarrow> int \<Rightarrow> nat \<Rightarrow> (nat \<times> int) option" where
  "candidate x n0 k =
     (let scale = 10 powi (n0 - int k);
          lo = nat \<lfloor>x / scale\<rfloor>;
          hi = lo + 1;
          ok_lo = (toDouble False (of_nat lo * scale) = Finite x);
          ok_hi = (toDouble False (of_nat hi * scale) = Finite x);
          dlo = x - of_nat lo * scale;
          dhi = of_nat hi * scale - x
      in if ok_lo \<and> (\<not> ok_hi \<or> dlo < dhi \<or> (dlo = dhi \<and> even lo)) then Some (lo, n0)
         else if ok_hi then (if hi = 10 ^ k then Some (10 ^ (k - 1), n0 + 1) else Some (hi, n0))
         else None)"

fun shortest :: "rat \<Rightarrow> int \<Rightarrow> nat \<Rightarrow> nat \<Rightarrow> (nat \<times> nat \<times> int) option" where
  "shortest x n0 k 0 = None"
| "shortest x n0 k (Suc fuel) =
     (case candidate x n0 k of
        Some (s, n) \<Rightarrow> Some (s, k, n)
      | None \<Rightarrow> shortest x n0 (Suc k) fuel)"

definition formatNumber :: "nat \<Rightarrow> nat \<Rightarrow> int \<Rightarrow> jsstring" where
  "formatNumber s k n =
     (let ds = digits10 s in
      if int k \<le> n \<and> n \<le> 21 then ds @ replicate (nat (n - int k)) 0x30
      else if 0 < n \<and> n \<le> 21 then take (nat n) ds @ [0x2E] @ drop (nat n) ds
      else if - 6 < n \<and> n \<le> 0 then [0x30, 0x2E] @ replicate (nat (- n)) 0x30 @ ds
      else
        let e = n - 1;
            es = (if e < 0 then 0x2D else 0x2B) # digits10 (nat \<bar>e\<bar>)
        in if k = 1 then ds @ [0x65] @ es
           else take 1 ds @ [0x2E] @ drop 1 ds @ [0x65] @ es)"

definition positiveToString :: "rat \<Rightarrow> jsstring" where
  "positiveToString x =
     (case shortest x (ilog 10 x + 1) 1 17 of
        Some (s, k, n) \<Rightarrow> formatNumber s k n
      | None \<Rightarrow> [])"

fun numberToString :: "jsnumber \<Rightarrow> jsstring" where
  "numberToString NaN = js ''NaN''"
| "numberToString NegZero = js ''0''"
| "numberToString PosInfinity = js ''Infinity''"
| "numberToString NegInfinity = js ''-Infinity''"
| "numberToString (Finite q) =
     (if q = 0 then js ''0''
      else if q < 0 then 0x2D # positiveToString (- q)
      else positiveToString q)"

fun isFinite :: "jsnumber \<Rightarrow> bool" where
  "isFinite (Finite q) = True"
| "isFinite NegZero = True"
| "isFinite NaN = False"
| "isFinite PosInfinity = False"
| "isFinite NegInfinity = False"

text \<open>
  The whole numbers of magnitude below \<open>2^53\<close>, without \<open>-0\<close>: what \<open>Date.now()\<close>
  returns is one of them.
\<close>

fun isSafeInteger :: "jsnumber \<Rightarrow> bool" where
  "isSafeInteger (Finite q) = (q = of_int \<lfloor>q\<rfloor> \<and> \<bar>q\<bar> < 2 ^ 53)"
| "isSafeInteger NegZero = False"
| "isSafeInteger NaN = False"
| "isSafeInteger PosInfinity = False"
| "isSafeInteger NegInfinity = False"

text \<open>
  A rational stands for a Number value only when it is a double, one that rounding gives
  back. Every number that the component holds is one: \<open>Date.now()\<close> returns a whole
  number below \<open>2^53\<close> (\<open>isSafeInteger_isDouble\<close> below) and \<open>JSON.parse\<close> returns
  what \<open>toDouble\<close> gives (\<open>parse_number_isDouble\<close>).
\<close>

fun isDouble :: "jsnumber \<Rightarrow> bool" where
  "isDouble (Finite q) = (q = 0 \<or> roundPos \<bar>q\<bar> = Some \<bar>q\<bar>)"
| "isDouble NegZero = True"
| "isDouble NaN = True"
| "isDouble PosInfinity = True"
| "isDouble NegInfinity = True"

section \<open>JSON\<close>

text \<open>
  The values that \<open>JSON.parse\<close> returns and that the component hands to
  \<open>JSON.stringify\<close>. An object is the list of its own properties in property order,
  with distinct keys.
\<close>

datatype jsvalue =
    JNull
  | JBool bool
  | JNumber jsnumber
  | JString jsstring
  | JArray "jsvalue list"
  | JObject "(jsstring \<times> jsvalue) list"

subsection \<open>\<open>JSON.parse\<close> (ECMA-262, 25.5.1)\<close>

text \<open>
  The JSON grammar: white space is TAB, LF, CR and SPACE; a string is quoted, a backslash
  in it starts an escape (a quote, a backslash, a slash, one of \<open>b f n r t\<close>, or \<open>u\<close> and
  four hexadecimal digits) and no raw code unit below U+0020 is allowed; a number is
  \<open>-? (0 | [1-9][0-9]*) (. [0-9]+)? ([eE] [+-]? [0-9]+)?\<close>. A function returns the value
  it read together with the rest of the text; \<open>None\<close> is a syntax error.
\<close>

definition isJSONWhiteSpace :: "16 word \<Rightarrow> bool" where
  "isJSONWhiteSpace c \<longleftrightarrow> c = 0x09 \<or> c = 0x0A \<or> c = 0x0D \<or> c = 0x20"

definition skip_ws :: "jsstring \<Rightarrow> jsstring" where
  "skip_ws cs = dropWhile isJSONWhiteSpace cs"

definition isDigit :: "16 word \<Rightarrow> bool" where
  "isDigit c \<longleftrightarrow> 0x30 \<le> c \<and> c \<le> 0x39"

definition decimalValue :: "jsstring \<Rightarrow> nat" where
  "decimalValue ds = foldl (\<lambda>a c. 10 * a + (unat c - 48)) 0 ds"

definition hexValue :: "16 word \<Rightarrow> 16 word option" where
  "hexValue c =
     (if 0x30 \<le> c \<and> c \<le> 0x39 then Some (c - 0x30)
      else if 0x61 \<le> c \<and> c \<le> 0x66 then Some (c - 0x57)
      else if 0x41 \<le> c \<and> c \<le> 0x46 then Some (c - 0x37)
      else None)"

definition hex4 :: "16 word \<Rightarrow> 16 word \<Rightarrow> 16 word \<Rightarrow> 16 word \<Rightarrow> 16 word option" where
  "hex4 a b c d =
     (case (hexValue a, hexValue b, hexValue c, hexValue d) of
        (Some h3, Some h2, Some h1, Some h0) \<Rightarrow>
          Some (push_bit 12 h3 OR push_bit 8 h2 OR push_bit 4 h1 OR h0)
      | _ \<Rightarrow> None)"

definition escapeChar :: "16 word \<Rightarrow> 16 word option" where
  "escapeChar e =
     (if e = 0x22 then Some 0x22 else if e = 0x2F then Some 0x2F
      else if e = 0x5C then Some 0x5C else if e = 0x62 then Some 0x08
      else if e = 0x66 then Some 0x0C else if e = 0x6E then Some 0x0A
      else if e = 0x72 then Some 0x0D else if e = 0x74 then Some 0x09
      else None)"

definition cons_result :: "16 word \<Rightarrow> (jsstring \<times> jsstring) option \<Rightarrow> (jsstring \<times> jsstring) option" where
  "cons_result u res = (case res of None \<Rightarrow> None | Some (s, t) \<Rightarrow> Some (u # s, t))"

fun parse_chars :: "jsstring \<Rightarrow> (jsstring \<times> jsstring) option" where
  "parse_chars [] = None"
| "parse_chars (c # cs) =
     (if c = 0x22 then Some ([], cs)
      else if c = 0x5C then
        (case cs of
           [] \<Rightarrow> None
         | e # r \<Rightarrow>
             if e = 0x75 then
               (case r of
                  h3 # h2 # h1 # h0 # r' \<Rightarrow>
                    (case hex4 h3 h2 h1 h0 of
                       None \<Rightarrow> None
                     | Some u \<Rightarrow> cons_result u (parse_chars r'))
                | _ \<Rightarrow> None)
             else
               (case escapeChar e of
                  None \<Rightarrow> None
                | Some u \<Rightarrow> cons_result u (parse_chars r)))
      else if c < 0x20 then None
      else cons_result c (parse_chars cs))"

definition scan_fraction :: "jsstring \<Rightarrow> (jsstring \<times> jsstring) option" where
  "scan_fraction r =
     (case r of
        [] \<Rightarrow> Some ([], [])
      | c # r' \<Rightarrow>
          if c = 0x2E then
            (if takeWhile isDigit r' = [] then None
             else Some (takeWhile isDigit r', dropWhile isDigit r'))
          else Some ([], r))"

definition scan_exponent :: "jsstring \<Rightarrow> (int \<times> jsstring) option" where
  "scan_exponent r =
     (case r of
        [] \<Rightarrow> Some (0, [])
      | c # r' \<Rightarrow>
          if c = 0x65 \<or> c = 0x45 then
            (let (sgn, r'') =
                   (case r' of
                      [] \<Rightarrow> (1, [])
                    | s # t \<Rightarrow> if s = 0x2B then (1, t) else if s = 0x2D then (- 1, t) else (1, r'))
             in if takeWhile isDigit r'' = [] then None
                else Some (sgn * int (decimalValue (takeWhile isDigit r'')), dropWhile isDigit r''))
          else Some (0, r))"

definition parse_number :: "jsstring \<Rightarrow> (jsnumber \<times> jsstring) option" where
  "parse_number cs =
     (let neg = (cs \<noteq> [] \<and> hd cs = 0x2D);
          cs1 = (if neg then tl cs else cs)
      in case cs1 of
           [] \<Rightarrow> None
         | c # r \<Rightarrow>
             if \<not> isDigit c then None
             else
               let ip = (if c = 0x30 then [c] else takeWhile isDigit cs1);
                   r1 = (if c = 0x30 then r else dropWhile isDigit cs1)
               in case scan_fraction r1 of
                    None \<Rightarrow> None
                  | Some (fp, r2) \<Rightarrow>
                      (case scan_exponent r2 of
                         None \<Rightarrow> None
                       | Some (ex, r3) \<Rightarrow>
                           Some (toDouble neg (of_nat (decimalValue (ip @ fp)) *
                                               10 powi (ex - int (length fp))), r3)))"

text \<open>What may follow a number in a text: nothing that continues the number.\<close>

definition ends_number :: "jsstring \<Rightarrow> bool" where
  "ends_number rest \<longleftrightarrow>
     rest = [] \<or> (\<not> isDigit (hd rest) \<and> hd rest \<noteq> 0x2E \<and> hd rest \<noteq> 0x65 \<and> hd rest \<noteq> 0x45)"

text \<open>What ends a run of digits.\<close>

definition stops_digits :: "jsstring \<Rightarrow> bool" where
  "stops_digits r \<longleftrightarrow> r = [] \<or> \<not> isDigit (hd r)"

text \<open>
  The members of an object literal become properties one after the other: a repeated key
  overwrites the value in place. The own properties are then enumerated with the array
  indices (canonical numerals below \<open>2^32 - 1\<close>) first, in ascending order, and the other
  keys in the order of their creation.
\<close>

definition isArrayIndex :: "jsstring \<Rightarrow> bool" where
  "isArrayIndex k \<longleftrightarrow>
     k \<noteq> [] \<and> list_all isDigit k \<and> (k = [0x30] \<or> hd k \<noteq> 0x30) \<and> decimalValue k < 2 ^ 32 - 1"

fun defineProperty :: "(jsstring \<times> jsvalue) list \<Rightarrow> jsstring \<times> jsvalue \<Rightarrow> (jsstring \<times> jsvalue) list" where
  "defineProperty [] kv = [kv]"
| "defineProperty (p # ps) kv = (if fst p = fst kv then kv # ps else p # defineProperty ps kv)"

definition ownProperties :: "(jsstring \<times> jsvalue) list \<Rightarrow> (jsstring \<times> jsvalue) list" where
  "ownProperties ps =
     sort_key (\<lambda>p. decimalValue (fst p)) (filter (\<lambda>p. isArrayIndex (fst p)) ps) @
     filter (\<lambda>p. \<not> isArrayIndex (fst p)) ps"

definition makeObject :: "(jsstring \<times> jsvalue) list \<Rightarrow> jsvalue" where
  "makeObject ms = JObject (ownProperties (foldl defineProperty [] ms))"

text \<open>
  The recursive descent over values, array elements and object members. The recursion
  is on a fuel argument; \<open>JSON_parse\<close> gives it \<open>2 * length s + 1\<close>, which is shown
  below to be enough for every text (\<open>parse_fuel\<close>), and more fuel changes no result
  (\<open>parse_value_mono\<close>). A text is accepted when nothing but white space follows
  its value.
\<close>

datatype 'a parsed = Parsed 'a jsstring | SyntaxError | OutOfFuel

fun parse_value :: "nat \<Rightarrow> jsstring \<Rightarrow> jsvalue parsed"
  and parse_elements :: "nat \<Rightarrow> jsstring \<Rightarrow> jsvalue list parsed"
  and parse_members :: "nat \<Rightarrow> jsstring \<Rightarrow> (jsstring \<times> jsvalue) list parsed"
where
  "parse_value 0 cs = OutOfFuel"
| "parse_value (Suc n) cs =
     (case skip_ws cs of
        [] \<Rightarrow> SyntaxError
      | c # r \<Rightarrow>
          if c = 0x5B then
            (case skip_ws r of
               [] \<Rightarrow> SyntaxError
             | d # r' \<Rightarrow>
                 if d = 0x5D then Parsed (JArray []) r'
                 else map_parsed JArray (parse_elements n (d # r')))
          else if c = 0x7B then
            (case skip_ws r of
               [] \<Rightarrow> SyntaxError
             | d # r' \<Rightarrow>
                 if d = 0x7D then Parsed (JObject []) r'
                 else map_parsed makeObject (parse_members n (d # r')))
          else if c = 0x22 then
            (case parse_chars r of
               None \<Rightarrow> SyntaxError
             | Some (s, t) \<Rightarrow> Parsed (JString s) t)
          else if take 4 (c # r) = js ''true'' then Parsed (JBool True) (drop 4 (c # r))
          else if take 5 (c # r) = js ''false'' then Parsed (JBool False) (drop 5 (c # r))
          else if take 4 (c # r) = js ''null'' then Parsed JNull (drop 4 (c # r))
          else
            (case parse_number (c # r) of
               None \<Rightarrow> SyntaxError
             | Some (x, t) \<Rightarrow> Parsed (JNumber x) t))"
| "parse_elements 0 cs = OutOfFuel"
| "parse_elements (Suc n) cs =
     (case parse_value n cs of
        Parsed v r \<Rightarrow>
          (case skip_ws r of
             [] \<Rightarrow> SyntaxError
           | d # r' \<Rightarrow>
               if d = 0x2C then map_parsed ((#) v) (parse_elements n r')
               else if d = 0x5D then Parsed [v] r'
               else SyntaxError)
      | SyntaxError \<Rightarrow> SyntaxError
      | OutOfFuel \<Rightarrow> OutOfFuel)"
| "parse_members 0 cs = OutOfFuel"
| "parse_members (Suc n) cs =
     (case skip_ws cs of
        [] \<Rightarrow> SyntaxError
      | q # r \<Rightarrow>
          if q \<noteq> 0x22 then SyntaxError
          else
            (case parse_chars r of
               None \<Rightarrow> SyntaxError
             | Some (k, r1) \<Rightarrow>
                 (case skip_ws r1 of
                    [] \<Rightarrow> SyntaxError
                  | col # r2 \<Rightarrow>
                      if col \<noteq> 0x3A then SyntaxError
                      else
                        (case parse_value n r2 of
                           Parsed v r3 \<Rightarrow>
                             (case skip_ws r3 of
                                [] \<Rightarrow> SyntaxError
                              | d # r4 \<Rightarrow>
                                  if d = 0x2C then map_parsed ((#) (k, v)) (parse_members n r4)
                                  else if d = 0x7D then Parsed [(k, v)] r4
                                  else SyntaxError)
                         | SyntaxError \<Rightarrow> SyntaxError
                         | OutOfFuel \<Rightarrow> OutOfFuel))))"

definition JSON_parse :: "jsstring \<Rightarrow> jsvalue option" where
  "JSON_parse s =
     (case parse_value (2 * length s + 1) s of
        Parsed v r \<Rightarrow> if skip_ws r = [] then Some v else None
      | SyntaxError \<Rightarrow> None
      | OutOfFuel \<Rightarrow> None)"

subsection \<open>\<open>JSON.stringify\<close> (ECMA-262, 25.5.2), without replacer and indentation\<close>

text \<open>
  \<open>QuoteJSONString\<close> escapes the quote, the backslash, the code units below U+0020
  (with a letter for BS, TAB, LF, FF and CR, with four hexadecimal digits otherwise) and
  every surrogate that is not part of a pair; a number that is not finite is written
  \<open>null\<close>.
\<close>

definition hexDigit :: "16 word \<Rightarrow> 16 word" where
  "hexDigit h = (if h < 10 then 0x30 + h else 0x57 + h)"

definition unicodeEscape :: "16 word \<Rightarrow> jsstring" where
  "unicodeEscape c =
     [0x5C, 0x75, hexDigit (drop_bit 12 c), hexDigit (drop_bit 8 c AND 0xF),
      hexDigit (drop_bit 4 c AND 0xF), hexDigit (c AND 0xF)]"

definition isLeadSurrogate :: "16 word \<Rightarrow> bool" where
  "isLeadSurrogate c \<longleftrightarrow> 0xD800 \<le> c \<and> c \<le> 0xDBFF"

definition isTrailSurrogate :: "16 word \<Rightarrow> bool" where
  "isTrailSurrogate c \<longleftrightarrow> 0xDC00 \<le> c \<and> c \<le> 0xDFFF"

definition quoteUnit :: "16 word \<Rightarrow> jsstring" where
  "quoteUnit c =
     (if c = 0x08 then [0x5C, 0x62] else if c = 0x09 then [0x5C, 0x74]
      else if c = 0x0A then [0x5C, 0x6E] else if c = 0x0C then [0x5C, 0x66]
      else if c = 0x0D then [0x5C, 0x72] else if c = 0x22 then [0x5C, 0x22]
      else if c = 0x5C then [0x5C, 0x5C]
      else if c < 0x20 \<or> isLeadSurrogate c \<or> isTrailSurrogate c then unicodeEscape c
      else [c])"

fun quoteChars :: "jsstring \<Rightarrow> jsstring" where
  "quoteChars [] = []"
| "quoteChars [c] = quoteUnit c"
| "quoteChars (c # d # cs) =
     (if isLeadSurrogate c \<and> isTrailSurrogate d then c # d # quoteChars cs
      else quoteUnit c @ quoteChars (d # cs))"

definition QuoteJSONString :: "jsstring \<Rightarrow> jsstring" where
  "QuoteJSONString s = 0x22 # quoteChars s @ [0x22]"

fun JSON_serialize :: "jsvalue \<Rightarrow> jsstring"
  and serializeElements :: "jsvalue list \<Rightarrow> jsstring"
  and serializeMembers :: "(jsstring \<times> jsvalue) list \<Rightarrow> jsstring"
where
  "JSON_serialize JNull = js ''null''"
| "JSON_serialize (JBool b) = (if b then js ''true'' else js ''false'')"
| "JSON_serialize (JNumber x) = (if isFinite x then numberToString x else js ''null'')"
| "JSON_serialize (JString s) = QuoteJSONString s"
| "JSON_serialize (JArray vs) = 0x5B # serializeElements vs @ [0x5D]"
| "JSON_serialize (JObject ps) = 0x7B # serializeMembers ps @ [0x7D]"
| "serializeElements [] = []"
| "serializeElements [v] = JSON_serialize v"
| "serializeElements (v # w # vs) = JSON_serialize v @ 0x2C # serializeElements (w # vs)"
| "serializeMembers [] = []"
| "serializeMembers [(k, v)] = QuoteJSONString k @ 0x3A # JSON_serialize v"
| "serializeMembers ((k, v) # p # ps) =
     QuoteJSONString k @ 0x3A # JSON_serialize v @ 0x2C # serializeMembers (p # ps)"

definition JSON_stringify :: "jsvalue \<Rightarrow> jsstring" where
  "JSON_stringify v = JSON_serialize v"

section \<open>The task list (src/App.tsx)\<close>

text \<open>\<open>interface Todo { id: string; text: string; completed: boolean; createdAt: number }\<close>\<close>

record Todo =
  todo_id :: jsstring
  todo_text :: jsstring
  completed :: bool
  createdAt :: jsnumber

text \<open>
  \<open>generateId\<close>: \<open>Date.now().toString(36) + Math.random().toString(36).substr(2)\<close>.
  The two readings of the environment are arguments: \<open>now\<close> is what \<open>Date.now()\<close>
  returns and \<open>rnd\<close> is the string \<open>Math.random().toString(36)\<close> (\<open>0.\<close> followed by
  base-36 digits, or \<open>0\<close>), of which \<open>substr(2)\<close> drops the first two code units.
\<close>

definition generateId :: "int \<Rightarrow> jsstring \<Rightarrow> jsstring" where
  "generateId now rnd = toString36 now @ drop 2 rnd"

datatype Filter = All | Active | Completed

text \<open>The component's state: the five \<open>useState\<close> cells of \<open>App\<close>.\<close>

record State =
  todos :: "Todo list"
  newTodo :: jsstring
  editingId :: "jsstring option"
  editText :: jsstring
  filter_mode :: Filter

definition setNewTodo :: "jsstring \<Rightarrow> State \<Rightarrow> State" where
  "setNewTodo s st = st\<lparr>newTodo := s\<rparr>"

definition setEditText :: "jsstring \<Rightarrow> State \<Rightarrow> State" where
  "setEditText s st = st\<lparr>editText := s\<rparr>"

definition setFilter :: "Filter \<Rightarrow> State \<Rightarrow> State" where
  "setFilter f st = st\<lparr>filter_mode := f\<rparr>"

text \<open>
  \<open>addTodo\<close> reads the draft text from the state. \<open>now\<close> and \<open>rnd\<close> are the readings of
  \<open>generateId\<close>, \<open>now'\<close> is the second \<open>Date.now()\<close>, for \<open>createdAt\<close>. The empty string
  is the only falsy string, so \<open>if (!trimmed) return\<close> tests for it.
\<close>

definition addTodo :: "int \<Rightarrow> jsstring \<Rightarrow> int \<Rightarrow> State \<Rightarrow> State" where
  "addTodo now rnd now' st =
     (let trimmed = trim (newTodo st) in
      if trimmed = [] then st
      else
        let todo = \<lparr>todo_id = generateId now rnd, todo_text = trimmed,
                    completed = False, createdAt = Finite (of_int now')\<rparr>
        in st\<lparr>todos := todo # todos st, newTodo := []\<rparr>)"

definition toggleTodo :: "jsstring \<Rightarrow> State \<Rightarrow> State" where
  "toggleTodo i st =
     st\<lparr>todos := map (\<lambda>todo. if todo_id todo = i then todo\<lparr>completed := \<not> completed todo\<rparr> else todo)
                    (todos st)\<rparr>"

definition deleteTodo :: "jsstring \<Rightarrow> State \<Rightarrow> State" where
  "deleteTodo i st = st\<lparr>todos := filter (\<lambda>todo. todo_id todo \<noteq> i) (todos st)\<rparr>"

definition startEditing :: "Todo \<Rightarrow> State \<Rightarrow> State" where
  "startEditing todo st = st\<lparr>editingId := Some (todo_id todo), editText := todo_text todo\<rparr>"

text \<open>
  \<open>saveEdit\<close>: \<open>if (!editingId) return\<close> leaves on \<open>null\<close> and on the empty string, the two
  falsy values of \<open>string | null\<close>.
\<close>

definition saveEdit :: "State \<Rightarrow> State" where
  "saveEdit st =
     (case editingId st of
        None \<Rightarrow> st
      | Some eid \<Rightarrow>
          if eid = [] then st
          else
            let trimmed = trim (editText st);
                st' = (if trimmed \<noteq> []
                       then st\<lparr>todos := map (\<lambda>todo. if todo_id todo = eid
                                                    then todo\<lparr>todo_text := trimmed\<rparr> else todo)
                                              (todos st)\<rparr>
                       else st)
            in st'\<lparr>editingId := None, editText := []\<rparr>)"

definition cancelEdit :: "State \<Rightarrow> State" where
  "cancelEdit st = st\<lparr>editingId := None, editText := []\<rparr>"

definition clearCompleted :: "State \<Rightarrow> State" where
  "clearCompleted st = st\<lparr>todos := filter (\<lambda>todo. \<not> completed todo) (todos st)\<rparr>"

definition filteredTodos :: "State \<Rightarrow> Todo list" where
  "filteredTodos st =
     filter (\<lambda>todo. if filter_mode st = Active then \<not> completed todo
                     else if filter_mode st = Completed then completed todo
                     else True)
            (todos st)"

definition activeCount :: "State \<Rightarrow> nat" where
  "activeCount st = length (filter (\<lambda>t. \<not> completed t) (todos st))"

definition completedCount :: "State \<Rightarrow> nat" where
  "completedCount st = length (filter (\<lambda>t. completed t) (todos st))"

section \<open>Persistence (src/App.tsx)\<close>

text \<open>
  \<open>localStorage\<close> is a map from keys to strings. \<open>load\<close> is the initializer of the
  \<open>todos\<close> state: \<open>getItem\<close> gives \<open>null\<close> for a missing key, \<open>if (saved)\<close> fails on
  \<open>null\<close> and on the empty string, and the \<open>catch\<close> turns the syntax error of
  \<open>JSON.parse\<close> into \<open>[]\<close>. \<open>save\<close> is the effect that runs after every change of
  \<open>todos\<close>. \<open>todosValue\<close> is the array of objects that a typed collection is at run time.
  Failures of the store itself (a full or a disabled \<open>localStorage\<close>) are not modelled.
\<close>

definition STORAGE_KEY :: jsstring where
  "STORAGE_KEY = js ''notion-todo-items''"

type_synonym storage = "jsstring \<rightharpoonup> jsstring"

definition load :: "storage \<Rightarrow> jsvalue" where
  "load ls =
     (case ls STORAGE_KEY of
        None \<Rightarrow> JArray []
      | Some saved \<Rightarrow>
          if saved = [] then JArray []
          else (case JSON_parse saved of
                  Some v \<Rightarrow> v
                | None \<Rightarrow> JArray []))"

definition save :: "jsvalue \<Rightarrow> storage \<Rightarrow> storage" where
  "save v ls = ls(STORAGE_KEY \<mapsto> JSON_stringify v)"

definition todoValue :: "Todo \<Rightarrow> jsvalue" where
  "todoValue t =
     JObject [(js ''id'', JString (todo_id t)), (js ''text'', JString (todo_text t)),
              (js ''completed'', JBool (completed t)), (js ''createdAt'', JNumber (createdAt t))]"

definition todosValue :: "Todo list \<Rightarrow> jsvalue" where
  "todosValue ts = JArray (map todoValue ts)"

text \<open>
  The cell \<open>todos\<close> is typed \<open>Todo[]\<close> but holds whatever \<open>load\<close> returned. The first
  statement of a render that uses it is \<open>todos.filter(...)\<close>, a method call: it throws
  a \<open>TypeError\<close> when \<open>todos\<close> is \<open>null\<close>, which has no properties, and when it is a
  parsed object, string, number or boolean, none of which has a function as its \<open>filter\<close>.
  \<open>filter_call\<close> gives the elements that the call goes through, or the error.
\<close>

datatype error = TypeError

fun filter_call :: "jsvalue \<Rightarrow> error + jsvalue list" where
  "filter_call (JArray vs) = Inr vs"
| "filter_call JNull = Inl TypeError"
| "filter_call (JBool b) = Inl TypeError"
| "filter_call (JNumber x) = Inl TypeError"
| "filter_call (JString s) = Inl TypeError"
| "filter_call (JObject ps) = Inl TypeError"

section \<open>Example states\<close>

definition task_a :: Todo where
  "task_a = \<lparr>todo_id = js ''a'', todo_text = js ''milk'', completed = False, createdAt = Finite 1\<rparr>"

definition task_b :: Todo where
  "task_b = \<lparr>todo_id = js ''b'', todo_text = js ''eggs'', completed = True, createdAt = Finite 2\<rparr>"

definition task_a2 :: Todo where
  "task_a2 = \<lparr>todo_id = js ''a'', todo_text = js ''tea'', completed = True, createdAt = Finite 3\<rparr>"

definition state0 :: State where
  "state0 = \<lparr>todos = [task_a, task_b], newTodo = [], editingId = None, editText = [],
             filter_mode = All\<rparr>"

text \<open>A collection as hydration from storage can produce it: two tasks share the id \<open>a\<close>.\<close>

definition state_dup :: State where
  "state_dup = \<lparr>todos = [task_a, task_b, task_a2], newTodo = [], editingId = None,
                editText = [], filter_mode = All\<rparr>"

text \<open>A task whose timestamp is infinite, as the stored text \<open>1e999\<close> hydrates it.\<close>

definition task_inf :: Todo where
  "task_inf = \<lparr>todo_id = js ''a'', todo_text = js ''milk'', completed = False,
               createdAt = PosInfinity\<rparr>"

text \<open>Tasks whose timestamps are a fraction and a whole number beyond \<open>2^53\<close>.\<close>

definition task_frac :: Todo where
  "task_frac = \<lparr>todo_id = js ''f'', todo_text = js ''half'', completed = True,
                createdAt = Finite (3400000000001 / 2)\<rparr>"

definition task_big :: Todo where
  "task_big = \<lparr>todo_id = js ''g'', todo_text = js ''late'', completed = False,
               createdAt = Finite (- (10 ^ 21))\<rparr>"

lemmas example_defs = task_a_def task_b_def task_a2_def state0_def state_dup_def js_def

section \<open>Trimming\<close>

lemma trim_Nil [simp]: "trim [] = []"
  by (simp add: trim_def)

lemma trim_x: "trim (js '' x '') = js ''x''"
  by (simp add: trim_def js_def isWhiteSpace_def)

lemma trim_y: "trim (js '' y '') = js ''y''"
  by (simp add: trim_def js_def isWhiteSpace_def)

lemma trim_blank: "trim (js ''  '') = []"
  by (simp add: trim_def js_def isWhiteSpace_def)

section \<open>Adding a task\<close>

text \<open>
  C1. Adding with a draft whose trim is empty changes nothing. Adding with a draft whose
  trim is not empty puts exactly one new task in front of the old collection, which is kept
  as it was: its text is the trimmed draft, it is not completed, its id is the one
  \<open>generateId\<close> returns for this call and its timestamp the clock's reading.
\<close>

theorem addTodo_spec:
  "(trim s = [] \<longrightarrow> addTodo now rnd now' (setNewTodo s st) = setNewTodo s st) \<and>
   (trim s \<noteq> [] \<longrightarrow>
      (\<exists>todo. todos (addTodo now rnd now' (setNewTodo s st)) = todo # todos st \<and>
         todo_text todo = trim s \<and> completed todo = False \<and>
         todo_id todo = generateId now rnd \<and> createdAt todo = Finite (of_int now')))"
  by (simp add: addTodo_def setNewTodo_def Let_def)

theorem addTodo_spec_witness:
  "trim (js ''  '') = [] \<and> trim (js '' x '') \<noteq> [] \<and>
   todos (addTodo 5 (js ''0.k3'') 6 (setNewTodo (js ''  '') state0)) = [task_a, task_b] \<and>
   todos (addTodo 5 (js ''0.k3'') 6 (setNewTodo (js '' x '') state0)) =
     [\<lparr>todo_id = js ''5k3'', todo_text = js ''x'', completed = False, createdAt = Finite 6\<rparr>,
      task_a, task_b]"
proof -
  have blank: "trim (js ''  '') = []" by (rule trim_blank)
  have x: "trim (js '' x '') = js ''x''" by (rule trim_x)
  have gen: "generateId 5 (js ''0.k3'') = js ''5k3''"
    by (simp add: generateId_def toString36_def digits36.simps digit36_def js_def)
  from addTodo_spec [of "js ''  ''" 5 "js ''0.k3''" 6 state0] blank
  have a: "todos (addTodo 5 (js ''0.k3'') 6 (setNewTodo (js ''  '') state0)) = [task_a, task_b]"
    by (simp add: setNewTodo_def state0_def)
  from addTodo_spec [of "js '' x ''" 5 "js ''0.k3''" 6 state0] x gen
  have b: "todos (addTodo 5 (js ''0.k3'') 6 (setNewTodo (js '' x '') state0)) =
     [\<lparr>todo_id = js ''5k3'', todo_text = js ''x'', completed = False, createdAt = Finite 6\<rparr>,
      task_a, task_b]"
    by (auto simp add: state0_def js_def)
  from blank x a b show ?thesis by (simp add: js_def)
qed

section \<open>Base-36 numerals\<close>

lemma unat_digit36: "d < 36 \<Longrightarrow> unat (digit36 d) = (if d < 10 then 48 + d else 87 + d)"
  by (auto simp add: digit36_def unat_word_ariths unat_of_nat)

lemma dval36_digit36: "d < 36 \<Longrightarrow> dval36 (digit36 d) = d"
  by (simp add: dval36_def unat_digit36)

lemma val36_digits36: "val36 (digits36 n) = n"
proof (induction n rule: digits36.induct)
  case (1 n)
  show ?case
  proof (cases "n < 36")
    case True
    then show ?thesis by (simp add: digits36.simps [of n] val36_def dval36_digit36)
  next
    case False
    with 1 have "val36 (digits36 (n div 36)) = n div 36" by simp
    with False show ?thesis
      by (simp add: digits36.simps [of n] val36_def dval36_digit36)
  qed
qed

lemma digits36_inj: "digits36 n = digits36 m \<Longrightarrow> n = m"
  by (metis val36_digits36)

lemma digits36_not_minus: "c \<in> set (digits36 n) \<Longrightarrow> c \<noteq> 0x2D"
proof (induction n rule: digits36.induct)
  case (1 n)
  have d: "\<And>d. d < 36 \<Longrightarrow> digit36 d \<noteq> 0x2D"
  proof
    fix d :: nat assume "d < 36" and "digit36 d = 0x2D"
    then have "unat (digit36 d) = 45" by simp
    with \<open>d < 36\<close> show False by (simp add: unat_digit36 split: if_splits)
  qed
  show ?case
  proof (cases "n < 36")
    case True
    with 1(2) d show ?thesis by (simp add: digits36.simps [of n])
  next
    case False
    with 1 d show ?thesis by (auto simp add: digits36.simps [of n])
  qed
qed

lemma digits36_nonempty: "digits36 n \<noteq> []"
  by (subst digits36.simps) simp

lemma toString36_inj: "toString36 a = toString36 b \<Longrightarrow> a = b"
proof -
  assume eq: "toString36 a = toString36 b"
  have hd_ne: "\<And>n. hd (digits36 n) \<noteq> 0x2D"
    using digits36_not_minus digits36_nonempty by (metis hd_in_set)
  show "a = b"
  proof (cases "a < 0"; cases "b < 0")
    assume "a < 0" "b < 0"
    with eq have "nat (- a) = nat (- b)" by (simp add: toString36_def digits36_inj)
    with \<open>a < 0\<close> \<open>b < 0\<close> show ?thesis by simp
  next
    assume "a < 0" "\<not> b < 0"
    with eq have "0x2D # digits36 (nat (- a)) = digits36 (nat b)" by (simp add: toString36_def)
    then have "hd (digits36 (nat b)) = 0x2D" by (metis list.sel(1))
    with hd_ne show ?thesis by blast
  next
    assume "\<not> a < 0" "b < 0"
    with eq have "0x2D # digits36 (nat (- b)) = digits36 (nat a)" by (simp add: toString36_def)
    then have "hd (digits36 (nat a)) = 0x2D" by (metis list.sel(1))
    with hd_ne show ?thesis by blast
  next
    assume "\<not> a < 0" "\<not> b < 0"
    with eq have "nat a = nat b" by (simp add: toString36_def digits36_inj)
    with \<open>\<not> a < 0\<close> \<open>\<not> b < 0\<close> show ?thesis by simp
  qed
qed

section \<open>Identifiers\<close>

text \<open>
  C9, as amended. \<open>generateId\<close> has no counter and no check against ids in use: its result
  is the timestamp's base-36 numeral followed by the digits of the random draw. Two calls
  whose timestamps have numerals of the same length (as all timestamps from 1972 to 2059
  do) return the same id exactly when they read the same timestamp and the same random
  digits; they return different ids in every other case.
\<close>

theorem generateId_collision:
  "length (toString36 a) = length (toString36 b) \<Longrightarrow>
     (generateId a r = generateId b r') = (a = b \<and> drop 2 r = drop 2 r')"
  by (auto simp add: generateId_def dest: toString36_inj)

section \<open>Editing a task\<close>

text \<open>
  C2, as amended. Editing a task of the collection whose id is not the empty string: when
  the edited text trims to the empty string the collection is unchanged, so the task keeps
  its text; otherwise every task with that id gets the trimmed text, every other task and
  every other field stays as it was, and when the ids of the collection are distinct
  exactly that task is changed.
\<close>

theorem saveEdit_spec:
  assumes "t \<in> set (todos st)" and "todo_id t \<noteq> []"
  shows "(trim s = [] \<longrightarrow> todos (saveEdit (setEditText s (startEditing t st))) = todos st) \<and>
    (trim s \<noteq> [] \<longrightarrow>
       length (todos (saveEdit (setEditText s (startEditing t st)))) = length (todos st) \<and>
       (\<forall>k < length (todos st).
          todos (saveEdit (setEditText s (startEditing t st))) ! k =
            (if todo_id (todos st ! k) = todo_id t then (todos st ! k)\<lparr>todo_text := trim s\<rparr>
             else todos st ! k)) \<and>
       (distinct (map todo_id (todos st)) \<longrightarrow>
          todos (saveEdit (setEditText s (startEditing t st))) =
            map (\<lambda>u. if u = t then t\<lparr>todo_text := trim s\<rparr> else u) (todos st)))"
proof -
  let ?st' = "saveEdit (setEditText s (startEditing t st))"
  have blank: "trim s = [] \<Longrightarrow> todos ?st' = todos st"
    using assms(2) by (simp add: saveEdit_def setEditText_def startEditing_def)
  have full: "trim s \<noteq> [] \<Longrightarrow> todos ?st' =
      map (\<lambda>u. if todo_id u = todo_id t then u\<lparr>todo_text := trim s\<rparr> else u) (todos st)"
    using assms(2) by (simp add: saveEdit_def setEditText_def startEditing_def)
  have uniq: "map (\<lambda>u. if todo_id u = todo_id t then u\<lparr>todo_text := trim s\<rparr> else u) (todos st) =
      map (\<lambda>u. if u = t then t\<lparr>todo_text := trim s\<rparr> else u) (todos st)"
    if d: "distinct (map todo_id (todos st))"
  proof (rule map_cong [OF refl])
    fix u assume u: "u \<in> set (todos st)"
    from d have "inj_on todo_id (set (todos st))" by (simp add: distinct_map)
    with u assms(1) have "todo_id u = todo_id t \<longleftrightarrow> u = t" by (auto dest: inj_onD)
    then show "(if todo_id u = todo_id t then u\<lparr>todo_text := trim s\<rparr> else u) =
               (if u = t then t\<lparr>todo_text := trim s\<rparr> else u)" by auto
  qed
  show ?thesis using blank full uniq by simp
qed

theorem saveEdit_spec_witness:
  "task_a \<in> set (todos state0) \<and> todo_id task_a \<noteq> [] \<and> trim (js ''  '') = [] \<and>
   trim (js '' y '') \<noteq> [] \<and> distinct (map todo_id (todos state0)) \<and>
   todos (saveEdit (setEditText (js ''  '') (startEditing task_a state0))) = [task_a, task_b] \<and>
   todos (saveEdit (setEditText (js '' y '') (startEditing task_a state0))) =
     [task_a\<lparr>todo_text := js ''y''\<rparr>, task_b]"
proof -
  have m: "task_a \<in> set (todos state0)" by (simp add: state0_def)
  have i: "todo_id task_a \<noteq> []" by (simp add: task_a_def js_def)
  have d: "distinct (map todo_id (todos state0))" by (simp add: example_defs)
  have ne: "task_b \<noteq> task_a" by (simp add: example_defs)
  have l: "todos state0 = [task_a, task_b]" by (simp add: state0_def)
  from saveEdit_spec [OF m i, of "js ''  ''"] saveEdit_spec [OF m i, of "js '' y ''"] m i d ne
  show ?thesis unfolding trim_blank trim_y l by (simp add: js_def)
qed

text \<open>
  C2 as stated fails when two tasks share an id: editing the first task \<open>a\<close> of
  \<open>state_dup\<close> also replaces the text of the third.
\<close>

theorem saveEdit_duplicate_ids_counterexample:
  "task_a \<in> set (todos state_dup) \<and> trim (js '' y '') = js ''y'' \<and>
   todos (saveEdit (setEditText (js '' y '') (startEditing task_a state_dup))) =
     [task_a\<lparr>todo_text := js ''y''\<rparr>, task_b, task_a2\<lparr>todo_text := js ''y''\<rparr>] \<and>
   todos (saveEdit (setEditText (js '' y '') (startEditing task_a state_dup))) \<noteq>
     [task_a\<lparr>todo_text := js ''y''\<rparr>, task_b, task_a2]"
  by (simp add: saveEdit_def setEditText_def startEditing_def trim_y Let_def)
    (simp add: example_defs)

section \<open>Clearing completed tasks\<close>

text \<open>
  C3. \<open>clearCompleted\<close> removes exactly the completed tasks: no completed task is left,
  the tasks left are the uncompleted ones with their multiplicities, unmodified and in
  their old relative order, and nothing else in the state changes.
\<close>

theorem clearCompleted_spec:
  "(\<forall>t \<in> set (todos (clearCompleted st)). \<not> completed t) \<and>
   mset (todos (clearCompleted st)) = filter_mset (\<lambda>t. \<not> completed t) (mset (todos st)) \<and>
   (\<forall>t \<in> set (todos st). \<not> completed t \<longrightarrow> t \<in> set (todos (clearCompleted st))) \<and>
   subseq (todos (clearCompleted st)) (todos st) \<and>
   clearCompleted st = st\<lparr>todos := todos (clearCompleted st)\<rparr>"
  by (simp add: clearCompleted_def)

theorem clearCompleted_spec_witness:
  "todos (clearCompleted state_dup) = [task_a] \<and> completed task_b \<and> completed task_a2 \<and>
   \<not> completed task_a \<and> subseq [task_a] (todos state_dup)"
  using clearCompleted_spec [of state_dup]
  by (simp add: clearCompleted_def) (simp add: example_defs)

section \<open>Filtering\<close>

text \<open>
  C4. \<open>filteredTodos\<close> is a function of the state and selecting a filter leaves the
  collection alone. The filter \<open>All\<close> shows the whole collection; the filters \<open>Active\<close>
  and \<open>Completed\<close> show two subsequences of it that share no task, that add up to the
  collection as multisets, and of which the collection is an interleaving.
\<close>

theorem filteredTodos_spec:
  "filteredTodos (setFilter All st) = todos st \<and>
   todos (setFilter f st) = todos st \<and>
   subseq (filteredTodos (setFilter Active st)) (todos st) \<and>
   subseq (filteredTodos (setFilter Completed st)) (todos st) \<and>
   set (filteredTodos (setFilter Active st)) \<inter> set (filteredTodos (setFilter Completed st)) = {} \<and>
   mset (filteredTodos (setFilter Active st)) + mset (filteredTodos (setFilter Completed st)) =
     mset (todos st) \<and>
   todos st \<in> shuffles (filteredTodos (setFilter Completed st)) (filteredTodos (setFilter Active st))"
proof -
  have a: "filteredTodos (setFilter Active st) = filter (\<lambda>t. \<not> completed t) (todos st)"
    by (simp add: filteredTodos_def setFilter_def)
  have c: "filteredTodos (setFilter Completed st) = filter (\<lambda>t. completed t) (todos st)"
    by (simp add: filteredTodos_def setFilter_def)
  have l: "filteredTodos (setFilter All st) = todos st"
    by (simp add: filteredTodos_def setFilter_def)
  have s: "todos st \<in> shuffles (filter (\<lambda>t. completed t) (todos st)) (filter (\<lambda>t. \<not> completed t) (todos st))"
    by (rule partition_in_shuffles)
  have m: "mset (filter (\<lambda>t. \<not> completed t) (todos st)) + mset (filter (\<lambda>t. completed t) (todos st)) = mset (todos st)"
    by (induction "todos st" arbitrary: st) (simp, metis add.commute mset_filter multiset_partition)
  show ?thesis unfolding a c l using s m by (auto simp add: setFilter_def)
qed

theorem filteredTodos_spec_witness:
  "filteredTodos (setFilter All state_dup) = [task_a, task_b, task_a2] \<and>
   filteredTodos (setFilter Active state_dup) = [task_a] \<and>
   filteredTodos (setFilter Completed state_dup) = [task_b, task_a2] \<and>
   [task_a, task_b, task_a2] \<in> shuffles [task_b, task_a2] [task_a]"
proof -
  have a: "filteredTodos (setFilter Active state_dup) = [task_a]"
    by (simp add: filteredTodos_def setFilter_def) (simp add: example_defs)
  have c: "filteredTodos (setFilter Completed state_dup) = [task_b, task_a2]"
    by (simp add: filteredTodos_def setFilter_def) (simp add: example_defs)
  have t: "todos state_dup = [task_a, task_b, task_a2]" by (simp add: state_dup_def)
  from filteredTodos_spec [of state_dup] show ?thesis unfolding a c t by simp
qed

lemma toggle_twice_map:
  "map ((\<lambda>todo. if todo_id todo = i then todo\<lparr>completed := \<not> completed todo\<rparr> else todo) \<circ>
        (\<lambda>todo. if todo_id todo = i then todo\<lparr>completed := \<not> completed todo\<rparr> else todo)) ts = ts"
  by (induction ts) auto

section \<open>Toggling\<close>

text \<open>
  C7. Toggling an id twice gives the original state back. One toggle keeps the length and
  changes nothing but the \<open>completed\<close> flag of the tasks with that id, which it negates.
\<close>

theorem toggleTodo_twice:
  "toggleTodo i (toggleTodo i st) = st \<and>
   length (todos (toggleTodo i st)) = length (todos st) \<and>
   (\<forall>k < length (todos st).
      todos (toggleTodo i st) ! k =
        (if todo_id (todos st ! k) = i
         then (todos st ! k)\<lparr>completed := \<not> completed (todos st ! k)\<rparr>
         else todos st ! k)) \<and>
   toggleTodo i st = st\<lparr>todos := todos (toggleTodo i st)\<rparr>"
  by (simp add: toggleTodo_def toggle_twice_map)

theorem toggleTodo_twice_witness:
  "toggleTodo (js ''a'') (toggleTodo (js ''a'') state0) = state0 \<and>
   todos (toggleTodo (js ''a'') state0) = [task_a\<lparr>completed := True\<rparr>, task_b]"
proof -
  have l: "todos state0 = [task_a, task_b]" by (simp add: state0_def)
  have "todos (toggleTodo (js ''a'') state0) ! 0 = task_a\<lparr>completed := True\<rparr>"
    using toggleTodo_twice [of "js ''a''" state0] unfolding l
    by (simp add: task_a_def)
  moreover have "todos (toggleTodo (js ''a'') state0) ! 1 = task_b"
    using toggleTodo_twice [of "js ''a''" state0] unfolding l
    by (simp add: task_b_def js_def)
  moreover have "length (todos (toggleTodo (js ''a'') state0)) = 2"
    using toggleTodo_twice [of "js ''a''" state0] unfolding l by simp
  ultimately have "todos (toggleTodo (js ''a'') state0) = [task_a\<lparr>completed := True\<rparr>, task_b]"
    by (simp add: list_eq_iff_nth_eq less_Suc_eq numeral_2_eq_2)
  with toggleTodo_twice [of "js ''a''" state0, THEN conjunct1] show ?thesis by simp
qed

lemma filter_id_absent: "i \<notin> todo_id ` set ts \<Longrightarrow> filter (\<lambda>todo. todo_id todo \<noteq> i) ts = ts"
  by (induction ts) auto

lemma map_id_absent:
  "i \<notin> todo_id ` set ts \<Longrightarrow> map (\<lambda>todo. if todo_id todo = i then f todo else todo) ts = ts"
  by (induction ts) auto

section \<open>Absent targets\<close>

text \<open>
  C8. With an id that no task of the collection has, toggling and deleting return the state
  as it is and saving an edit leaves the collection as it is; saving with no edit in progress
  changes nothing; deleting an id a second time changes nothing.
\<close>

theorem absent_target_noop:
  "(i \<notin> todo_id ` set (todos st) \<longrightarrow>
      toggleTodo i st = st \<and> deleteTodo i st = st \<and>
      (editingId st = Some i \<longrightarrow> todos (saveEdit st) = todos st)) \<and>
   (editingId st = None \<longrightarrow> saveEdit st = st) \<and>
   deleteTodo j (deleteTodo j st) = deleteTodo j st"
  by (simp add: toggleTodo_def deleteTodo_def saveEdit_def Let_def filter_id_absent map_id_absent)

theorem absent_target_noop_witness:
  "js ''zz'' \<notin> todo_id ` set (todos state0) \<and>
   toggleTodo (js ''zz'') state0 = state0 \<and> deleteTodo (js ''zz'') state0 = state0 \<and>
   editingId (setEditText (js ''new'') (state0\<lparr>editingId := Some (js ''zz'')\<rparr>)) = Some (js ''zz'') \<and>
   todos (saveEdit (setEditText (js ''new'') (state0\<lparr>editingId := Some (js ''zz'')\<rparr>))) = [task_a, task_b] \<and>
   editingId state0 = None \<and> saveEdit state0 = state0 \<and>
   todos (deleteTodo (js ''a'') state0) = [task_b] \<and>
   todos (deleteTodo (js ''a'') (deleteTodo (js ''a'') state0)) = [task_b]"
proof -
  have a: "js ''zz'' \<notin> todo_id ` set (todos state0)" by (simp add: example_defs js_def)
  have e: "editingId (setEditText (js ''new'') (state0\<lparr>editingId := Some (js ''zz'')\<rparr>)) = Some (js ''zz'')"
    by (simp add: setEditText_def)
  have t: "todos (setEditText (js ''new'') (state0\<lparr>editingId := Some (js ''zz'')\<rparr>)) = todos state0"
    by (simp add: setEditText_def)
  have n: "editingId state0 = None" by (simp add: state0_def)
  have d: "todos (deleteTodo (js ''a'') state0) = [task_b]"
    by (simp add: deleteTodo_def) (simp add: example_defs js_def)
  have l: "todos state0 = [task_a, task_b]" by (simp add: state0_def)
  from absent_target_noop [of "js ''zz''" state0 "js ''a''"]
    absent_target_noop [of "js ''zz''" "setEditText (js ''new'') (state0\<lparr>editingId := Some (js ''zz'')\<rparr>)"]
    a e t n d l
  show ?thesis by simp
qed

section \<open>Tasks that share an id\<close>

text \<open>
  C10. Toggling an id negates \<open>completed\<close> at every position whose task has that id, and
  deleting an id leaves no task with that id: as many tasks go as have it.
\<close>

theorem duplicate_ids_all_matches:
  "length (todos (toggleTodo i st)) = length (todos st) \<and>
   (\<forall>k < length (todos st). todo_id (todos st ! k) = i \<longrightarrow>
      completed (todos (toggleTodo i st) ! k) = (\<not> completed (todos st ! k))) \<and>
   (\<forall>t \<in> set (todos (deleteTodo i st)). todo_id t \<noteq> i) \<and>
   length (todos (deleteTodo i st)) + length (filter (\<lambda>t. todo_id t = i) (todos st)) =
     length (todos st)"
proof -
  have "length (filter (\<lambda>t. todo_id t \<noteq> i) ts) + length (filter (\<lambda>t. todo_id t = i) ts) = length ts" for ts
    by (induction ts) auto
  then show ?thesis by (simp add: toggleTodo_def deleteTodo_def)
qed

theorem duplicate_ids_all_matches_witness:
  "todo_id (todos state_dup ! 0) = js ''a'' \<and> todo_id (todos state_dup ! 2) = js ''a'' \<and>
   completed (todos (toggleTodo (js ''a'') state_dup) ! 0) = (\<not> completed task_a) \<and>
   completed (todos (toggleTodo (js ''a'') state_dup) ! 2) = (\<not> completed task_a2) \<and>
   length (filter (\<lambda>t. todo_id t = js ''a'') (todos state_dup)) = 2 \<and>
   length (todos (deleteTodo (js ''a'') state_dup)) = 1 \<and>
   js ''a'' \<notin> todo_id ` set (todos (deleteTodo (js ''a'') state_dup))"
proof -
  have l: "todos state_dup = [task_a, task_b, task_a2]" by (simp add: state_dup_def)
  have i: "todo_id task_a = js ''a''" "todo_id task_a2 = js ''a''" "todo_id task_b \<noteq> js ''a''"
    by (simp_all add: example_defs js_def)
  from duplicate_ids_all_matches [of "js ''a''" state_dup] i
  show ?thesis unfolding l by auto
qed

theorem generateId_collision_witness:
  "length (toString36 1700000000000) = length (toString36 1700000000001) \<and>
   generateId 1700000000000 (js ''0.k3'') \<noteq> generateId 1700000000001 (js ''0.k3'') \<and>
   generateId 1700000000000 (js ''0.k3'') \<noteq> generateId 1700000000000 (js ''0.k4'') \<and>
   generateId 1700000000000 (js ''0.k3'') = generateId 1700000000000 (js ''0.k3'')"
proof -
  have l: "length (toString36 1700000000000) = length (toString36 1700000000001)"
    by (simp add: toString36_def digits36.simps)
  from generateId_collision [OF l, of "js ''0.k3''" "js ''0.k3''"]
    generateId_collision [where a = 1700000000000 and b = 1700000000000
      and r = "js ''0.k3''" and r' = "js ''0.k4''"] l
  show ?thesis by (simp add: js_def)
qed

text \<open>
  C9 as stated fails: two additions that read the same millisecond and the same random
  draw put two tasks with the same id into the collection. Even different readings can
  collide, since the two parts are concatenated without a separator.
\<close>

theorem generateId_not_unique_counterexample:
  "todos (addTodo 1700000000000 (js ''0.k3'') 1700000000000
      (setNewTodo (js ''x'')
        (addTodo 1700000000000 (js ''0.k3'') 1700000000000 (setNewTodo (js ''x'') state0)))) =
     [\<lparr>todo_id = generateId 1700000000000 (js ''0.k3''), todo_text = js ''x'', completed = False,
        createdAt = Finite 1700000000000\<rparr>,
      \<lparr>todo_id = generateId 1700000000000 (js ''0.k3''), todo_text = js ''x'', completed = False,
        createdAt = Finite 1700000000000\<rparr>, task_a, task_b] \<and>
   generateId 1 (js ''0.0x'') = generateId 36 (js ''0.x'')"
proof -
  have t: "trim (js ''x'') = js ''x''" by (simp add: trim_def js_def isWhiteSpace_def)
  have g: "generateId 1 (js ''0.0x'') = generateId 36 (js ''0.x'')"
    by (simp add: generateId_def toString36_def digits36.simps digit36_def js_def)
  have n: "js ''x'' \<noteq> []" by (simp add: js_def)
  show ?thesis using n g by (simp add: addTodo_def setNewTodo_def t Let_def state0_def)
qed

section \<open>Doubles: whole numbers are exact, the digit search is sound\<close>

lemma ndigits_bounds:
  "0 < n \<Longrightarrow> 2 \<le> b \<Longrightarrow> b ^ (ndigits b n - 1) \<le> n \<and> n < b ^ ndigits b n"
proof (induction b n rule: ndigits.induct)
  case (1 b n)
  show ?case
  proof (cases "n < b")
    case True
    with 1(2) show ?thesis by (simp add: ndigits.simps [of b n])
  next
    case False
    with 1(3) have pos: "0 < n div b" by (simp add: div_greater_zero_iff)
    from False 1(3) have nd: "ndigits b n = Suc (ndigits b (n div b))"
      by (simp add: ndigits.simps [of b n])
    from 1(1) False 1(3) pos
    have ih: "b ^ (ndigits b (n div b) - 1) \<le> n div b \<and> n div b < b ^ ndigits b (n div b)"
      by simp
    have pos': "0 < ndigits b (n div b)" by (subst ndigits.simps) simp
    from ih have "b * b ^ (ndigits b (n div b) - 1) \<le> b * (n div b)" by simp
    also have "\<dots> \<le> n" by simp
    finally have lo: "b ^ ndigits b (n div b) \<le> n"
      using pos' by (cases "ndigits b (n div b)") simp_all
    from ih have "Suc (n div b) \<le> b ^ ndigits b (n div b)" by simp
    then have "b * Suc (n div b) \<le> b * b ^ ndigits b (n div b)" by (rule mult_le_mono2)
    moreover have "n < b * Suc (n div b)"
      using 1(3) by (metis dividend_less_times_div mult.commute mult_Suc_right add.commute not_numeral_le_zero order_less_le_trans zero_less_iff_neq_zero zero_le)
    ultimately have hi: "n < b ^ Suc (ndigits b (n div b))" by simp
    from lo hi nd show ?thesis by simp
  qed
qed

lemma ndigits_pos: "0 < ndigits b m"
  by (subst ndigits.simps) simp

lemma ndigits_one: "2 \<le> b \<Longrightarrow> ndigits b (Suc 0) = 1"
  by (subst ndigits.simps) simp

lemma ilog_of_nat:
  assumes "0 < m" "2 \<le> b"
  shows "ilog b (of_nat m) = int (ndigits b m) - 1"
proof -
  from ndigits_bounds [OF assms] have "b ^ (ndigits b m - 1) \<le> m" by simp
  then have "(of_nat (b ^ (ndigits b m - 1)) :: rat) \<le> of_nat m" by (simp only: of_nat_le_iff)
  then have le: "(of_nat b :: rat) ^ (ndigits b m - 1) \<le> of_nat m" by (simp only: of_nat_power)
  have i: "int (ndigits b m) - 1 = int (ndigits b m - 1)" using ndigits_pos [of b m] by simp
  have "(of_nat b :: rat) powi (int (ndigits b m - 1)) \<le> of_nat m"
    using le by (simp only: power_int_of_nat)
  then have le': "(of_nat b :: rat) powi (int (ndigits b m) - 1) \<le> of_nat m" by (simp only: i)
  have q: "quotient_of (of_nat m :: rat) = (int m, 1)" by (rule quotient_of_rat_of_nat)
  have d: "int (ndigits b (nat (int m))) - int (ndigits b (nat 1)) = int (ndigits b m) - 1"
    using assms(2) by (simp add: ndigits_one)
  show ?thesis
    unfolding ilog_def q prod.case Let_def d by (simp only: le' if_True)
qed

lemma round_half_even_of_int [simp]: "round_half_even (of_int z) = z"
  by (simp add: round_half_even_def)

lemma toDouble_of_nat:
  assumes "0 < m" "m < 2 ^ 53"
  shows "toDouble False (of_nat m) = Finite (of_nat m)"
proof -
  define e where "e = ndigits 2 m - 1"
  from ndigits_bounds [of m 2] assms have "2 ^ e \<le> m" by (simp add: e_def)
  from this assms(2) have "(2::nat) ^ e < 2 ^ 53" by (rule le_less_trans)
  then have e53: "e < 53" using power_less_imp_less_exp [of 2 e 53] by simp
  have il: "ilog 2 (of_nat m) = int e"
    using ilog_of_nat [of m 2] assms(1) ndigits_pos [of 2 m] by (simp add: e_def)
  have mx: "max (int e) (- 1022) = int e" by simp
  have ie: "int e - 52 = - int (52 - e)" using e53 by simp
  have "(2::rat) powi (- int (52 - e)) = 1 / 2 ^ (52 - e)"
    by (simp add: power_int_minus inverse_eq_divide)
  then have ulp: "(2::rat) powi (int e - 52) = 1 / 2 ^ (52 - e)"
    by (simp only: ie)
  have "(of_nat m :: rat) / (1 / 2 ^ (52 - e)) = of_int (int (m * 2 ^ (52 - e)))" by simp
  then have rd: "round_half_even (of_nat m / (1 / 2 ^ (52 - e))) = int (m * 2 ^ (52 - e))"
    by (simp only: round_half_even_of_int)
  have v: "(of_int (int (m * 2 ^ (52 - e))) :: rat) * (1 / 2 ^ (52 - e)) = of_nat m" by simp
  have "(of_nat m :: rat) < of_nat (2 ^ 53)" using assms(2) by (simp only: of_nat_less_iff)
  also have "\<dots> < 2 ^ 1024" by simp
  finally have lt: "\<not> (2::rat) ^ 1024 \<le> of_nat m" by simp
  have "roundPos (of_nat m) = Some (of_nat m)"
    unfolding roundPos_def il mx ulp Let_def rd v using lt by simp
  with assms(1) show ?thesis by (simp add: toDouble_def)
qed

lemma toDouble_neg:
  assumes "toDouble False q = Finite x" "x \<noteq> 0"
  shows "toDouble True q = Finite (- x)"
proof (cases "q = 0")
  case True
  with assms show ?thesis by (simp add: toDouble_def)
next
  case False
  show ?thesis
  proof (cases "roundPos q")
    case None
    with False assms show ?thesis by (simp add: toDouble_def)
  next
    case (Some v)
    with False assms show ?thesis by (cases "v = 0") (simp_all add: toDouble_def)
  qed
qed

lemma toDouble_zero: "toDouble False 0 = Finite 0"
  by (simp add: toDouble_def)

lemma candidate_unfold:
  "candidate x n0 k =
     (if toDouble False (of_nat (nat \<lfloor>x / 10 powi (n0 - int k)\<rfloor>) * 10 powi (n0 - int k)) = Finite x \<and>
         (toDouble False (of_nat (nat \<lfloor>x / 10 powi (n0 - int k)\<rfloor> + 1) * 10 powi (n0 - int k)) \<noteq> Finite x \<or>
          x - of_nat (nat \<lfloor>x / 10 powi (n0 - int k)\<rfloor>) * 10 powi (n0 - int k)
            < of_nat (nat \<lfloor>x / 10 powi (n0 - int k)\<rfloor> + 1) * 10 powi (n0 - int k) - x \<or>
          (x - of_nat (nat \<lfloor>x / 10 powi (n0 - int k)\<rfloor>) * 10 powi (n0 - int k)
             = of_nat (nat \<lfloor>x / 10 powi (n0 - int k)\<rfloor> + 1) * 10 powi (n0 - int k) - x \<and>
           even (nat \<lfloor>x / 10 powi (n0 - int k)\<rfloor>)))
      then Some (nat \<lfloor>x / 10 powi (n0 - int k)\<rfloor>, n0)
      else if toDouble False (of_nat (nat \<lfloor>x / 10 powi (n0 - int k)\<rfloor> + 1) * 10 powi (n0 - int k)) = Finite x
        then (if nat \<lfloor>x / 10 powi (n0 - int k)\<rfloor> + 1 = 10 ^ k then Some (10 ^ (k - 1), n0 + 1)
              else Some (nat \<lfloor>x / 10 powi (n0 - int k)\<rfloor> + 1, n0))
        else None)"
  unfolding candidate_def Let_def by (rule refl)

lemma candidate_sound:
  assumes "candidate x n0 k = Some (s, n)" "x \<noteq> 0" "0 < k"
  shows "toDouble False (of_nat s * 10 powi (n - int k)) = Finite x \<and> 0 < s \<and> (n = n0 \<or> n = n0 + 1)"
proof -
  define lo where "lo = nat \<lfloor>x / 10 powi (n0 - int k)\<rfloor>"
  define hi where "hi = lo + 1"
  define sc :: rat where "sc = 10 powi (n0 - int k)"
  have p: "(10::rat) ^ k * sc = 10 ^ (k - 1) * 10 powi (n0 + 1 - int k)"
  proof (cases k)
    case 0
    with assms(3) show ?thesis by simp
  next
    case (Suc j)
    have eq: "n0 + 1 - int k = (n0 - int k) + 1" by simp
    have "(10::rat) powi ((n0 - int k) + 1) = 10 powi (n0 - int k) * 10"
      by (rule power_int_add_1) simp
    then have "(10::rat) powi (n0 + 1 - int k) = sc * 10"
      by (simp only: eq sc_def)
    with Suc show ?thesis by simp
  qed
  have nz: "0 < t" if "toDouble False (of_nat t * q) = Finite x" for t q
    using that assms(2) by (cases "t = 0") (simp_all add: toDouble_zero)
  have hp: "0 < hi" by (simp add: hi_def)
  note c = assms(1) [unfolded candidate_unfold, folded lo_def, folded hi_def, folded sc_def]
  show ?thesis
  proof (cases "toDouble False (of_nat lo * sc) = Finite x \<and>
         (toDouble False (of_nat hi * sc) \<noteq> Finite x \<or>
          x - of_nat lo * sc < of_nat hi * sc - x \<or>
          (x - of_nat lo * sc = of_nat hi * sc - x \<and> even lo))")
    case True
    from c have "Some (lo, n0) = Some (s, n)" by (simp only: if_P [OF True])
    then have "s = lo" "n = n0" by simp_all
    with True nz [of lo sc] show ?thesis by (simp add: sc_def)
  next
    case False
    note F = this
    show ?thesis
    proof (cases "toDouble False (of_nat hi * sc) = Finite x")
      case ok: True
      show ?thesis
      proof (cases "hi = 10 ^ k")
        case True
        from c have "Some (10 ^ (k - 1), n0 + 1) = Some (s, n)"
          by (simp only: if_not_P [OF F] if_P [OF ok] if_P [OF True])
        then have sn: "s = 10 ^ (k - 1)" "n = n0 + 1" by simp_all
        from True have "(of_nat hi :: rat) = 10 ^ k" by simp
        with ok p have "toDouble False (10 ^ (k - 1) * 10 powi (n0 + 1 - int k)) = Finite x"
          by simp
        with sn show ?thesis by simp
      next
        case False
        from c have "Some (hi, n0) = Some (s, n)"
          by (simp only: if_not_P [OF F] if_P [OF ok] if_not_P [OF False])
        then have "s = hi" "n = n0" by simp_all
        with ok hp show ?thesis by (simp add: sc_def)
      qed
    next
      case False
      from c have "None = Some (s, n)" by (simp only: if_not_P [OF F] if_not_P [OF False])
      then show ?thesis by simp
    qed
  qed
qed

lemma candidate_exact:
  assumes "toDouble False (of_nat (nat \<lfloor>x / 10 powi (n0 - int k)\<rfloor>) * 10 powi (n0 - int k)) = Finite x"
  shows "candidate x n0 k \<noteq> None"
proof -
  define lo where "lo = nat \<lfloor>x / 10 powi (n0 - int k)\<rfloor>"
  define hi where "hi = lo + 1"
  define sc :: rat where "sc = 10 powi (n0 - int k)"
  note a = assms [folded lo_def, folded sc_def]
  have c: "candidate x n0 k =
     (if toDouble False (of_nat lo * sc) = Finite x \<and>
         (toDouble False (of_nat hi * sc) \<noteq> Finite x \<or>
          x - of_nat lo * sc < of_nat hi * sc - x \<or>
          (x - of_nat lo * sc = of_nat hi * sc - x \<and> even lo))
      then Some (lo, n0)
      else if toDouble False (of_nat hi * sc) = Finite x
        then (if hi = 10 ^ k then Some (10 ^ (k - 1), n0 + 1) else Some (hi, n0))
        else None)"
    unfolding candidate_unfold lo_def hi_def sc_def by (rule refl)
  show ?thesis
  proof (cases "toDouble False (of_nat lo * sc) = Finite x \<and>
         (toDouble False (of_nat hi * sc) \<noteq> Finite x \<or>
          x - of_nat lo * sc < of_nat hi * sc - x \<or>
          (x - of_nat lo * sc = of_nat hi * sc - x \<and> even lo))")
    case True
    have "candidate x n0 k = Some (lo, n0)" unfolding c by (simp only: if_P [OF True])
    then show ?thesis by simp
  next
    case False
    with a have ok: "toDouble False (of_nat hi * sc) = Finite x" by blast
    have "candidate x n0 k = (if hi = 10 ^ k then Some (10 ^ (k - 1), n0 + 1) else Some (hi, n0))"
      unfolding c by (simp only: if_not_P [OF False] if_P [OF ok])
    then show ?thesis by (simp split: if_split)
  qed
qed

lemma shortest_sound:
  "shortest x n0 k f = Some (s, k', n) \<Longrightarrow> x \<noteq> 0 \<Longrightarrow> 0 < k \<Longrightarrow>
     toDouble False (of_nat s * 10 powi (n - int k')) = Finite x \<and> 0 < s \<and> k \<le> k' \<and>
     (n = n0 \<or> n = n0 + 1)"
proof (induction f arbitrary: k)
  case 0
  then show ?case by simp
next
  case (Suc f)
  show ?case
  proof (cases "candidate x n0 k")
    case None
    with Suc.prems have "shortest x n0 (Suc k) f = Some (s, k', n)" by simp
    from Suc.IH [OF this Suc.prems(2)] show ?thesis by simp
  next
    case (Some r)
    obtain s0 n1 where r: "r = (s0, n1)" by (cases r)
    with Some Suc.prems have "s = s0" "k' = k" "n = n1" by simp_all
    with candidate_sound [of x n0 k s0 n1] Some r Suc.prems(2,3) show ?thesis by simp
  qed
qed

lemma shortest_complete:
  "candidate x n0 k1 \<noteq> None \<Longrightarrow> k \<le> k1 \<Longrightarrow> k1 < k + f \<Longrightarrow>
     \<exists>s k' n. shortest x n0 k f = Some (s, k', n) \<and> k' \<le> k1"
proof (induction f arbitrary: k)
  case 0
  then show ?case by simp
next
  case (Suc f)
  show ?case
  proof (cases "candidate x n0 k")
    case None
    with Suc.prems(1) have "k \<noteq> k1" by auto
    with Suc.prems have "Suc k \<le> k1" "k1 < Suc k + f" by simp_all
    from Suc.IH [OF Suc.prems(1) this] None show ?thesis by simp
  next
    case (Some r)
    with Suc.prems(2) show ?thesis by (cases r) simp
  qed
qed

section \<open>Numbers survive printing and parsing\<close>

lemma unat_digit10: "d < 10 \<Longrightarrow> unat (0x30 + of_nat d :: 16 word) = 48 + d"
  by (simp add: unat_word_ariths unat_of_nat)

lemma isDigit_digit10: "d < 10 \<Longrightarrow> isDigit (0x30 + of_nat d)"
  by (simp add: isDigit_def word_le_nat_alt unat_digit10)

lemma digits10_nonempty: "digits10 n \<noteq> []"
  by (subst digits10.simps) simp

lemma digits10_all_digits: "list_all isDigit (digits10 n)"
proof (induction n rule: digits10.induct)
  case (1 n)
  show ?case
  proof (cases "n < 10")
    case True
    then show ?thesis by (simp add: digits10.simps [of n] isDigit_digit10)
  next
    case False
    with 1 show ?thesis by (simp add: digits10.simps [of n] isDigit_digit10)
  qed
qed

lemma decimalValue_snoc: "decimalValue (ds @ [c]) = 10 * decimalValue ds + (unat c - 48)"
  by (simp add: decimalValue_def)

lemma decimalValue_digits10: "decimalValue (digits10 n) = n"
proof (induction n rule: digits10.induct)
  case (1 n)
  show ?case
  proof (cases "n < 10")
    case True
    then show ?thesis by (simp add: digits10.simps [of n] decimalValue_def unat_digit10)
  next
    case False
    with 1 have "decimalValue (digits10 (n div 10)) = n div 10" by simp
    with False show ?thesis
      by (simp add: digits10.simps [of n] decimalValue_snoc unat_digit10)
  qed
qed

lemma decimalValue_zeros: "decimalValue (ds @ replicate z 0x30) = decimalValue ds * 10 ^ z"
proof (induction z)
  case 0
  then show ?case by simp
next
  case (Suc z)
  have "ds @ replicate (Suc z) 0x30 = (ds @ replicate z 0x30) @ [0x30]"
    by (simp add: replicate_append_same)
  then show ?case using Suc by (simp only: decimalValue_snoc) simp
qed

lemma hd_digits10: "0 < n \<Longrightarrow> hd (digits10 n) \<noteq> 0x30"
proof (induction n rule: digits10.induct)
  case (1 n)
  show ?case
  proof (cases "n < 10")
    case True
    have "unat (0x30 + of_nat n :: 16 word) \<noteq> unat (0x30 :: 16 word)"
      using True 1(2) by (simp add: unat_digit10)
    then have "(0x30 + of_nat n :: 16 word) \<noteq> 0x30" by metis
    with True show ?thesis by (simp add: digits10.simps [of n])
  next
    case False
    then have "0 < n div 10" by simp
    with 1 False have "hd (digits10 (n div 10)) \<noteq> 0x30" by simp
    with False show ?thesis by (simp add: digits10.simps [of n] digits10_nonempty)
  qed
qed

lemma takeWhile_digits:
  "list_all isDigit ds \<Longrightarrow> ends_number rest \<Longrightarrow>
     takeWhile isDigit (ds @ rest) = ds \<and> dropWhile isDigit (ds @ rest) = rest"
  by (induction ds) (auto simp add: ends_number_def takeWhile_eq_Nil_iff dropWhile_eq_self_iff)

lemma scan_fraction_end: "ends_number rest \<Longrightarrow> scan_fraction rest = Some ([], rest)"
  by (cases rest) (auto simp add: scan_fraction_def ends_number_def)

lemma scan_exponent_end: "ends_number rest \<Longrightarrow> scan_exponent rest = Some (0, rest)"
  by (cases rest) (auto simp add: scan_exponent_def ends_number_def)

lemma isDigit_zero: "isDigit 0x30"
  by (simp add: isDigit_def)

lemma not_minus_digit: "isDigit c \<Longrightarrow> c \<noteq> 0x2D"
  by (auto simp add: isDigit_def)

lemma parse_number_digits:
  assumes "0 < s" "ends_number rest"
  shows "parse_number (digits10 s @ replicate z 0x30 @ rest) =
           Some (toDouble False (of_nat (s * 10 ^ z)), rest)"
proof -
  obtain c r where cr: "digits10 s = c # r" using digits10_nonempty [of s] by (cases "digits10 s") auto
  from digits10_all_digits [of s] cr have dc: "isDigit c" by simp
  from hd_digits10 [OF assms(1)] cr have c0: "c \<noteq> 0x30" by simp
  have all: "list_all isDigit (digits10 s @ replicate z 0x30)"
    using digits10_all_digits [of s] isDigit_zero by (auto simp add: list_all_iff)
  from takeWhile_digits [OF all assms(2)]
  have tw: "takeWhile isDigit (c # r @ replicate z 0x30 @ rest) = c # r @ replicate z 0x30"
    and dw: "dropWhile isDigit (c # r @ replicate z 0x30 @ rest) = rest"
    using cr by simp_all
  have val: "decimalValue (c # r @ replicate z 0x30) = s * 10 ^ z"
    using decimalValue_zeros [of "digits10 s" z] decimalValue_digits10 [of s] cr by simp
  have "parse_number (c # r @ replicate z 0x30 @ rest) =
           Some (toDouble False (of_nat (s * 10 ^ z)), rest)"
    unfolding parse_number_def Let_def
    using dc c0 not_minus_digit [OF dc] tw dw val
      scan_fraction_end [OF assms(2)] scan_exponent_end [OF assms(2)]
    by simp
  with cr show ?thesis by simp
qed

lemma parse_number_neg_digits:
  assumes "0 < s" "ends_number rest"
  shows "parse_number (0x2D # digits10 s @ replicate z 0x30 @ rest) =
           Some (toDouble True (of_nat (s * 10 ^ z)), rest)"
proof -
  obtain c r where cr: "digits10 s = c # r" using digits10_nonempty [of s] by (cases "digits10 s") auto
  from digits10_all_digits [of s] cr have dc: "isDigit c" by simp
  from hd_digits10 [OF assms(1)] cr have c0: "c \<noteq> 0x30" by simp
  have all: "list_all isDigit (digits10 s @ replicate z 0x30)"
    using digits10_all_digits [of s] isDigit_zero by (auto simp add: list_all_iff)
  from takeWhile_digits [OF all assms(2)]
  have tw: "takeWhile isDigit (c # r @ replicate z 0x30 @ rest) = c # r @ replicate z 0x30"
    and dw: "dropWhile isDigit (c # r @ replicate z 0x30 @ rest) = rest"
    using cr by simp_all
  have val: "decimalValue (c # r @ replicate z 0x30) = s * 10 ^ z"
    using decimalValue_zeros [of "digits10 s" z] decimalValue_digits10 [of s] cr by simp
  have "parse_number (0x2D # c # r @ replicate z 0x30 @ rest) =
           Some (toDouble True (of_nat (s * 10 ^ z)), rest)"
    unfolding parse_number_def Let_def
    using dc c0 tw dw val
      scan_fraction_end [OF assms(2)] scan_exponent_end [OF assms(2)]
    by simp
  with cr show ?thesis by simp
qed

lemma parse_number_zero:
  assumes "ends_number rest"
  shows "parse_number (0x30 # rest) = Some (Finite 0, rest)"
  unfolding parse_number_def Let_def
  using scan_fraction_end [OF assms] scan_exponent_end [OF assms]
  by (simp add: isDigit_zero decimalValue_def toDouble_zero)

lemma positiveToString_nat:
  assumes "0 < m" "m < 2 ^ 53"
  shows "\<exists>s z. 0 < s \<and> positiveToString (of_nat m) = digits10 s @ replicate z 0x30 \<and>
           toDouble False (of_nat (s * 10 ^ z)) = Finite (of_nat m)"
proof -
  define k1 where "k1 = ndigits 10 m"
  define x :: rat where "x = of_nat m"
  have xnz: "x \<noteq> 0" using assms(1) by (simp add: x_def)
  have n0: "ilog 10 x + 1 = int k1"
    using ilog_of_nat [of m 10] assms(1) by (simp add: k1_def x_def)
  from ndigits_bounds [of m 10] assms(1) have "10 ^ (k1 - 1) \<le> m" by (simp add: k1_def)
  from this assms(2) have "(10::nat) ^ (k1 - 1) < 2 ^ 53" by (rule le_less_trans)
  also have "(2::nat) ^ 53 < 10 ^ 16" by simp
  finally have "k1 - 1 < 16" using power_less_imp_less_exp [of 10 "k1 - 1" 16] by simp
  then have k16: "k1 \<le> 16" by simp
  have k1pos: "1 \<le> k1" using ndigits_pos [of 10 m] by (simp add: k1_def)
  have "toDouble False (of_nat (nat \<lfloor>x / 10 powi (int k1 - int k1)\<rfloor>) * 10 powi (int k1 - int k1)) = Finite x"
    using toDouble_of_nat [OF assms] by (simp add: x_def)
  then have "candidate x (int k1) k1 \<noteq> None" by (rule candidate_exact)
  from shortest_complete [OF this k1pos, of 17] k16
  obtain s k' n where sh: "shortest x (int k1) 1 17 = Some (s, k', n)" and kk: "k' \<le> k1"
    by auto
  from shortest_sound [OF sh xnz]
  have td: "toDouble False (of_nat s * 10 powi (n - int k')) = Finite x"
    and sp: "0 < s" and k'1: "1 \<le> k'" and nn: "n = int k1 \<or> n = int k1 + 1"
    by simp_all
  define z where "z = nat (n - int k')"
  from kk nn have ge: "int k' \<le> n" by auto
  from nn k16 have le21: "n \<le> 21" by auto
  from ge have "n - int k' = int z" by (simp add: z_def)
  then have "(10::rat) powi (n - int k') = 10 ^ z" by simp
  with td have td': "toDouble False (of_nat (s * 10 ^ z)) = Finite x" by simp
  have "formatNumber s k' n = digits10 s @ replicate z 0x30"
    using ge le21 by (simp add: formatNumber_def z_def)
  with sh n0 have "positiveToString x = digits10 s @ replicate z 0x30"
    by (simp add: positiveToString_def)
  with sp td' show ?thesis unfolding x_def by blast
qed

lemma numberToString_roundtrip:
  assumes "isSafeInteger x" "ends_number rest"
  shows "parse_number (numberToString x @ rest) = Some (x, rest)"
proof -
  from assms(1) obtain q where x: "x = Finite q" and qi: "q = of_int \<lfloor>q\<rfloor>" and qb: "\<bar>q\<bar> < 2 ^ 53"
    by (cases x) simp_all
  define i where "i = \<lfloor>q\<rfloor>"
  from qi have q: "q = of_int i" by (simp add: i_def)
  from qb q have "(of_int \<bar>i\<bar> :: rat) < of_int (2 ^ 53)" by simp
  then have ib: "\<bar>i\<bar> < 2 ^ 53" by (simp only: of_int_less_iff)
  consider (zero) "i = 0" | (pos) "0 < i" | (neg) "i < 0" by linarith
  then show ?thesis
  proof cases
    case zero
    with x q show ?thesis using parse_number_zero [OF assms(2)] by (simp add: js_def)
  next
    case pos
    define m where "m = nat i"
    from pos have qm: "q = of_nat m" by (simp add: q m_def)
    from pos ib have m: "0 < m" "m < 2 ^ 53" by (simp_all add: m_def nat_less_iff)
    from positiveToString_nat [OF m] obtain s z where
      s: "0 < s" "positiveToString (of_nat m) = digits10 s @ replicate z 0x30"
         "toDouble False (of_nat (s * 10 ^ z)) = Finite (of_nat m)" by blast
    from m(1) have "numberToString x = positiveToString (of_nat m)"
      by (simp add: x qm)
    with s parse_number_digits [OF s(1) assms(2), of z] show ?thesis by (simp add: x qm)
  next
    case neg
    define m where "m = nat (- i)"
    from neg have qm: "q = - of_nat m" by (simp add: q m_def)
    from neg ib have m: "0 < m" "m < 2 ^ 53" by (simp_all add: m_def nat_less_iff)
    from positiveToString_nat [OF m] obtain s z where
      s: "0 < s" "positiveToString (of_nat m) = digits10 s @ replicate z 0x30"
         "toDouble False (of_nat (s * 10 ^ z)) = Finite (of_nat m)" by blast
    from m(1) have nz: "(of_nat m :: rat) \<noteq> 0" by simp
    from m(1) have "numberToString x = 0x2D # positiveToString (of_nat m)"
      by (simp add: x qm)
    with s toDouble_neg [OF s(3) nz] parse_number_neg_digits [OF s(1) assms(2), of z]
    show ?thesis by (simp add: x qm)
  qed
qed

section \<open>Doubles: seventeen digits identify every double\<close>

text \<open>
  Rounding gives back every multiple of the unit in the last place (\<open>roundPos_exact\<close>),
  it is stable under a relative change below \<open>2^-54\<close> (\<open>roundPos_stable\<close>), it is
  idempotent (\<open>roundPos_idem\<close>) and it overflows from \<open>2^1024\<close> on
  (\<open>roundPos_overflow\<close>). The decimal numbers of 17 digits around a double round back
  to it (\<open>seventeen_digits\<close>), so the digit search succeeds on every double, with
  \<open>k\<close> digits that round back to it (\<open>shortest_double\<close>).
\<close>

lemma ilog_bounds:
  assumes "0 < q" "2 \<le> b"
  shows "of_nat b powi (ilog b q) \<le> q \<and> q < of_nat b powi (ilog b q + 1)"
proof -
  obtain num den where qd: "quotient_of q = (num, den)" by (cases "quotient_of q")
  from quotient_of_denom_pos [OF qd] have dp: "0 < den" .
  from quotient_of_div [OF qd] have q: "q = of_int num / of_int den" .
  from assms(1) dp have np: "0 < num" by (simp add: q zero_less_divide_iff)
  define B :: rat where "B = of_nat b"
  have B1: "1 < B" "0 < B" "B \<noteq> 0" using assms(2) by (simp_all add: B_def)
  define ln where "ln = ndigits b (nat num)"
  define ld where "ld = ndigits b (nat den)"
  have lnp: "0 < ln" and ldp: "0 < ld" by (simp_all add: ln_def ld_def ndigits_pos)
  from ndigits_bounds [of "nat num" b] np assms(2)
  have n1: "b ^ (ln - 1) \<le> nat num" and n2: "nat num < b ^ ln" by (simp_all add: ln_def)
  from ndigits_bounds [of "nat den" b] dp assms(2)
  have d1: "b ^ (ld - 1) \<le> nat den" and d2: "nat den < b ^ ld" by (simp_all add: ld_def)
  have rn: "(of_int num :: rat) = of_nat (nat num)" using np by simp
  have rd: "(of_int den :: rat) = of_nat (nat den)" using dp by simp
  have N1: "B ^ (ln - 1) \<le> of_int num"
    unfolding rn B_def using n1 by (metis of_nat_le_iff of_nat_power)
  have N2: "of_int num < B ^ ln"
    unfolding rn B_def using n2 by (metis of_nat_less_iff of_nat_power)
  have D1: "B ^ (ld - 1) \<le> of_int den"
    unfolding rd B_def using d1 by (metis of_nat_le_iff of_nat_power)
  have D2: "of_int den < B ^ ld"
    unfolding rd B_def using d2 by (metis of_nat_less_iff of_nat_power)
  have dpos: "(0::rat) < of_int den" using dp by simp
  define d where "d = int ln - int ld"
  have up: "q < B powi (d + 1)"
  proof -
    have "d + 1 = int ln - int (ld - 1)" using ldp by (simp add: d_def)
    then have "B powi (d + 1) = B ^ ln / B ^ (ld - 1)"
      using B1 by (simp add: power_int_diff)
    moreover have "q < B ^ ln / B ^ (ld - 1)"
    proof -
      have "q < B ^ ln / of_int den" unfolding q using N2 dpos by (simp add: divide_strict_right_mono)
      also have "\<dots> \<le> B ^ ln / B ^ (ld - 1)"
      proof (rule divide_left_mono [OF D1])
        show "0 \<le> B ^ ln" using B1 by simp
        show "0 < of_int den * B ^ (ld - 1)" using B1 dpos by (intro mult_pos_pos) simp_all
      qed
      finally show ?thesis .
    qed
    ultimately show ?thesis by simp
  qed
  have lo: "B powi (d - 1) \<le> q"
  proof -
    have "d - 1 = int (ln - 1) - int ld" using lnp by (simp add: d_def)
    then have "B powi (d - 1) = B ^ (ln - 1) / B ^ ld"
      using B1 by (simp add: power_int_diff)
    moreover have "B ^ (ln - 1) / B ^ ld \<le> q"
    proof -
      have "B ^ (ln - 1) / B ^ ld \<le> B ^ (ln - 1) / of_int den"
      proof (rule divide_left_mono)
        show "of_int den \<le> B ^ ld" using D2 by simp
        show "0 \<le> B ^ (ln - 1)" using B1 by simp
        show "0 < B ^ ld * of_int den" using B1 dpos by (intro mult_pos_pos) simp_all
      qed
      also have "\<dots> \<le> q" unfolding q using N1 dpos by (simp add: divide_right_mono)
      finally show ?thesis .
    qed
    ultimately show ?thesis by simp
  qed
  have il: "ilog b q = (if B powi d \<le> q then d else d - 1)"
    unfolding ilog_def qd prod.case Let_def d_def ln_def ld_def B_def by (rule refl)
  show ?thesis
  proof (cases "B powi d \<le> q")
    case True
    with il up show ?thesis by (simp add: B_def)
  next
    case False
    with il lo show ?thesis by (simp add: B_def)
  qed
qed

lemma ilog_unique:
  assumes "0 < q" "2 \<le> b" "of_nat b powi j \<le> q" "q < of_nat b powi (j + 1)"
  shows "ilog b q = j"
proof -
  define B :: rat where "B = of_nat b"
  have B1: "1 < B" using assms(2) by (simp add: B_def)
  from ilog_bounds [OF assms(1,2)]
  have lo: "B powi (ilog b q) \<le> q" and up: "q < B powi (ilog b q + 1)" by (simp_all add: B_def)
  have "B powi j < B powi (ilog b q + 1)" using assms(3) up by (simp add: B_def)
  then have a: "j < ilog b q + 1"
    using B1 by (metis linorder_not_less order_less_imp_le power_int_increasing leD)
  have "B powi (ilog b q) < B powi (j + 1)" using lo assms(4) by (simp add: B_def)
  then have b: "ilog b q < j + 1"
    using B1 by (metis linorder_not_less order_less_imp_le power_int_increasing leD)
  from a b show ?thesis by simp
qed

lemma round_half_even_near:
  assumes "\<bar>y - of_int m\<bar> < 1 / 2"
  shows "round_half_even y = m"
proof (cases "of_int m \<le> y")
  case True
  with assms have "y < of_int m + 1 / 2" by simp
  with True have f: "\<lfloor>y\<rfloor> = m" by (intro floor_unique) simp_all
  from assms True have "y - of_int m < 1 / 2" by simp
  with f show ?thesis by (simp add: round_half_even_def Let_def)
next
  case False
  with assms have lo: "of_int m - 1 / 2 < y" and hi: "y < of_int m" by simp_all
  then have f: "\<lfloor>y\<rfloor> = m - 1" by (intro floor_unique) simp_all
  from lo have "1 / 2 < y - of_int (m - 1)" by simp
  with f show ?thesis by (simp add: round_half_even_def Let_def)
qed

lemma two_powi_pos: "0 < (2::rat) powi j"
  by simp

lemma two_powi_Suc: "(2::rat) powi (j + 1) = 2 * 2 powi j"
  by (simp add: power_int_add)

lemma two_powi_pred: "(2::rat) powi (j - 1) = 2 powi j / 2"
  by (simp add: power_int_diff)

lemma two_powi_mono: "a \<le> b \<Longrightarrow> (2::rat) powi a \<le> 2 powi b"
  by (rule power_int_increasing) simp_all

lemma two_powi_strict: "(2::rat) powi a < 2 powi b \<Longrightarrow> a < b"
  by (metis linorder_not_less leD two_powi_mono)

lemma roundPos_near:
  assumes "0 < v"
    and "x = of_int m * 2 powi (max (ilog 2 v) (- 1022) - 52)"
    and "\<bar>v - x\<bar> < 2 powi (max (ilog 2 v) (- 1022) - 52) / 2"
    and "x < 2 ^ 1024"
  shows "roundPos v = Some x"
proof -
  define u :: rat where "u = 2 powi (max (ilog 2 v) (- 1022) - 52)"
  have up: "0 < u" by (simp add: u_def)
  have "v / u - of_int m = (v - x) / u"
    using up assms(2) by (simp add: u_def [symmetric] field_simps)
  moreover have "\<bar>(v - x) / u\<bar> < 1 / 2"
    using assms(3) up by (simp add: u_def [symmetric] field_simps)
  ultimately have "\<bar>v / u - of_int m\<bar> < 1 / 2" by simp
  then have "round_half_even (v / u) = m" by (rule round_half_even_near)
  then show ?thesis
    unfolding roundPos_def Let_def u_def [symmetric]
    using assms(2,4) by (simp add: u_def [symmetric])
qed

lemma two_powi_split: "b \<le> a \<Longrightarrow> (2::rat) powi a = of_int (2 ^ nat (a - b)) * 2 powi b"
proof -
  assume le: "b \<le> a"
  define n where "n = nat (a - b)"
  from le have a: "a = int n + b" by (simp add: n_def)
  have "(2::rat) powi (int n + b) = 2 powi (int n) * 2 powi b" by (rule power_int_add) simp
  also have "(2::rat) powi (int n) = 2 ^ n" by (rule power_int_of_nat)
  finally have "(2::rat) powi a = 2 ^ n * 2 powi b" by (simp only: a [symmetric])
  then show ?thesis by (simp add: n_def)
qed

lemma multiple_gap:
  assumes "0 < (u::rat)" "of_int m * u < of_int M * u"
  shows "of_int m * u + u \<le> of_int M * u"
proof -
  from assms have "(of_int m :: rat) < of_int M" by (simp add: mult_less_cancel_right)
  then have "m + 1 \<le> M" by simp
  then have "(of_int (m + 1) :: rat) \<le> of_int M" by (simp only: of_int_le_iff)
  then have "of_int (m + 1) * u \<le> of_int M * u" using assms(1) by (simp add: mult_le_cancel_right)
  then show ?thesis by (simp add: algebra_simps)
qed

lemma roundPos_stable:
  assumes xp: "0 < x" and rx: "roundPos x = Some x" and vp: "0 < v"
    and near: "\<bar>v - x\<bar> < x / 2 ^ 54"
  shows "roundPos v = Some x"
proof -
  define i where "i = ilog 2 x"
  define e where "e = max i (- 1022)"
  define u :: rat where "u = 2 powi (e - 52)"
  define m where "m = round_half_even (x / u)"
  have up: "0 < u" by (simp add: u_def)
  from ilog_bounds [OF xp, of 2] have xi: "2 powi i \<le> x" and xi1: "x < 2 powi (i + 1)"
    by (simp_all add: i_def)
  from rx have xm: "x = of_int m * u" and xmax: "x < 2 ^ 1024"
    unfolding roundPos_def Let_def i_def [symmetric] e_def [symmetric] u_def [symmetric]
      m_def [symmetric]
    by (simp_all split: if_splits)
  from xp xm up have "0 < (of_int m :: rat)" by (simp add: zero_less_mult_iff)
  then have mp: "1 \<le> m" by simp
  then have "(1::rat) \<le> of_int m" by simp
  then have xu: "u \<le> x" using up xm by (metis mult_le_cancel_right1 leD linorder_le_cases mult.commute mult_le_cancel_left1)
  have e1022: "- 1022 \<le> e" by (simp add: e_def)
  have ie: "i \<le> e" by (simp add: e_def)
  have "(2::rat) powi (- 1074) \<le> u" unfolding u_def using e1022 by (intro two_powi_mono) simp
  with xu xi1 have "(2::rat) powi (- 1074) < 2 powi (i + 1)" by simp
  then have i1074: "- 1074 \<le> i" using two_powi_strict [of "- 1074" "i + 1"] by simp
  have e53: "e \<le> i + 53" using i1074 by (simp add: e_def)
  \<comment> \<open>the distance is below half a unit in the last place of \<open>x\<close>\<close>
  have "x / 2 ^ 54 < 2 powi (i + 1) / 2 ^ 54" using xi1 by (simp add: divide_strict_right_mono)
  also have "(2::rat) powi (i + 1) / 2 ^ 54 = 2 powi (i - 53)"
    using power_int_diff [of "2::rat" "i + 1" 54] by simp
  also have "\<dots> \<le> 2 powi (e - 53)" using ie by (intro two_powi_mono) simp
  also have "\<dots> = u / 2" using two_powi_pred [of "e - 52"] by (simp add: u_def)
  finally have xh: "x / 2 ^ 54 < u / 2" .
  with near have nu: "\<bar>v - x\<bar> < u / 2" by simp
  define j where "j = ilog 2 v"
  from ilog_bounds [OF vp, of 2] have vj: "2 powi j \<le> v" and vj1: "v < 2 powi (j + 1)"
    by (simp_all add: j_def)
  \<comment> \<open>\<open>v\<close> is not in a higher binade\<close>
  have ji: "j \<le> i"
  proof (rule ccontr)
    assume "\<not> j \<le> i"
    then have "i + 1 \<le> j" by simp
    then have "(2::rat) powi (i + 1) \<le> 2 powi j" by (rule two_powi_mono)
    with vj have big: "2 powi (i + 1) \<le> v" by simp
    have s: "(2::rat) powi (i + 1) = of_int (2 ^ nat (i + 1 - (e - 52))) * u"
      unfolding u_def using e53 by (intro two_powi_split) simp
    from xi1 have "of_int m * u < of_int (2 ^ nat (i + 1 - (e - 52))) * u"
      by (simp only: xm [symmetric] s [symmetric])
    from multiple_gap [OF up this] have "x + u \<le> 2 powi (i + 1)"
      by (simp only: xm [symmetric] s [symmetric])
    with big have "u \<le> v - x" by simp
    with nu up show False by simp
  qed
  \<comment> \<open>nor more than one binade lower\<close>
  have ij: "i - 1 \<le> j"
  proof -
    have "x / 2 ^ 54 \<le> x / 2" using xp by (simp add: field_simps)
    with near have "\<bar>v - x\<bar> < x / 2" by simp
    moreover have "x - v \<le> \<bar>v - x\<bar>" by simp
    ultimately have "x - v < x / 2" by simp
    then have "x / 2 < v" by (simp add: field_simps)
    moreover have "(2::rat) powi (i - 1) \<le> x / 2" using xi two_powi_pred [of i] by simp
    ultimately have "(2::rat) powi (i - 1) < 2 powi (j + 1)" using vj1 by simp
    from two_powi_strict [OF this] show ?thesis by simp
  qed
  show ?thesis
  proof (cases "max j (- 1022) = e")
    case True
    show ?thesis
      by (rule roundPos_near [OF vp, of x m])
        (simp_all only: j_def [symmetric] True u_def [symmetric] xm [symmetric] nu xmax)
  next
    case False
    with ji ij have j: "j = i - 1" and i1021: "- 1021 \<le> i"
      by (auto simp add: e_def max_def split: if_splits)
    then have ei: "e = i" and ev: "max j (- 1022) = i - 1" by (simp_all add: e_def)
    from vj1 j have vlt: "v < 2 powi i" by simp
    have s: "(2::rat) powi i = of_int (2 ^ nat (i - (e - 52))) * u"
      unfolding u_def using ei by (intro two_powi_split) simp
    have xeq: "x = 2 powi i"
    proof (rule ccontr)
      assume "x \<noteq> 2 powi i"
      with xi have "2 powi i < x" by simp
      then have "of_int (2 ^ nat (i - (e - 52))) * u < of_int m * u"
        by (simp only: xm [symmetric] s [symmetric])
      from multiple_gap [OF up this] have "2 powi i + u \<le> x"
        by (simp only: xm [symmetric] s [symmetric])
      with vlt have "u < x - v" by simp
      with nu up show False by simp
    qed
    define u' :: rat where "u' = 2 powi (i - 1 - 52)"
    have u': "u' = u / 2" using two_powi_pred [of "i - 52"] by (simp add: u'_def u_def ei)
    have x': "x = of_int (2 ^ 53) * u'"
      unfolding xeq u'_def using two_powi_split [of "i - 1 - 52" i] by simp
    have "x / 2 ^ 54 = 2 powi (i - 54)"
      unfolding xeq using power_int_diff [of "2::rat" i 54] by simp
    also have "\<dots> = u' / 2" using two_powi_pred [of "i - 1 - 52"] by (simp add: u'_def)
    finally have "\<bar>v - x\<bar> < u' / 2" using near by simp
    then show ?thesis
      by (intro roundPos_near [OF vp, of x "2 ^ 53"])
        (simp_all only: j_def [symmetric] ev u'_def [symmetric] x' [symmetric] xmax)
  qed
qed

lemma roundPos_exact:
  assumes "2 powi j \<le> x" "x < 2 powi (j + 1)" "- 1022 \<le> j" "j < 1024"
    and "x = of_int m * 2 powi (j - 52)"
  shows "roundPos x = Some x"
proof -
  have xp: "0 < x" by (rule less_le_trans [OF two_powi_pos assms(1)])
  from ilog_unique [OF xp, of 2 j] assms(1,2) have il: "ilog 2 x = j" by simp
  have mx: "max j (- 1022) = j" using assms(3) by simp
  have "x / 2 powi (j - 52) = of_int m" using assms(5) by simp
  then have rd: "round_half_even (x / 2 powi (j - 52)) = m" by (simp only: round_half_even_of_int)
  have "(2::rat) powi (j + 1) \<le> 2 powi 1024" using assms(4) by (intro two_powi_mono) simp
  with assms(2) have "x < 2 ^ 1024" by simp
  then show ?thesis
    unfolding roundPos_def Let_def il mx rd using assms(5) by simp
qed

lemma isSafeInteger_isDouble: "isSafeInteger x \<Longrightarrow> isDouble x"
proof (cases x)
  case (Finite q)
  assume "isSafeInteger x"
  with Finite have qi: "q = of_int \<lfloor>q\<rfloor>" and qb: "\<bar>q\<bar> < 2 ^ 53" by simp_all
  show ?thesis
  proof (cases "q = 0")
    case True
    with Finite show ?thesis by simp
  next
    case False
    define m where "m = nat \<bar>\<lfloor>q\<rfloor>\<bar>"
    from qi have aq: "\<bar>q\<bar> = of_nat m" by (simp add: m_def)
    from False aq have mp: "0 < m" by (cases "m = 0") simp_all
    from qb aq have "(of_nat m :: rat) < of_nat (2 ^ 53)" by simp
    then have mb: "m < 2 ^ 53" by (simp only: of_nat_less_iff)
    from toDouble_of_nat [OF mp mb] mp have "roundPos (of_nat m) = Some (of_nat m)"
      by (auto simp add: toDouble_def split: option.splits if_splits)
    with Finite aq show ?thesis by simp
  qed
qed simp_all

lemma round_half_even_ge: "of_int m \<le> y \<Longrightarrow> m \<le> round_half_even y"
proof -
  assume "of_int m \<le> y"
  then have "m \<le> \<lfloor>y\<rfloor>" by (simp add: le_floor_iff)
  then show ?thesis by (simp add: round_half_even_def Let_def)
qed

lemma roundPos_overflow:
  assumes "2 ^ 1024 \<le> v"
  shows "roundPos v = None"
proof -
  have vp: "0 < v" using assms by (rule less_le_trans [rotated]) simp
  define j where "j = ilog 2 v"
  from ilog_bounds [OF vp, of 2] have lo: "2 powi j \<le> v" and hi: "v < 2 powi (j + 1)"
    by (simp_all add: j_def)
  have "(2::rat) powi 1024 < 2 powi (j + 1)" using assms hi by simp
  then have j: "1024 \<le> j"
    using two_powi_mono [of "j + 1" 1024] by (cases "1024 \<le> j") auto
  then have mx: "max j (- 1022) = j" by simp
  have sp: "(2::rat) powi j = of_int (2 ^ 52) * 2 powi (j - 52)"
    using two_powi_split [of "j - 52" j] by simp
  have up: "0 < (2::rat) powi (j - 52)" by (rule two_powi_pos)
  from lo have "of_int (2 ^ 52) * 2 powi (j - 52) \<le> v" by (simp only: sp)
  then have "of_int (2 ^ 52) \<le> v / 2 powi (j - 52)"
    using up by (simp add: pos_le_divide_eq)
  then have "2 ^ 52 \<le> round_half_even (v / 2 powi (j - 52))" by (rule round_half_even_ge)
  then have "(of_int (2 ^ 52) :: rat) \<le> of_int (round_half_even (v / 2 powi (j - 52)))"
    by (simp only: of_int_le_iff)
  then have "of_int (2 ^ 52) * (2::rat) powi (j - 52) \<le>
      of_int (round_half_even (v / 2 powi (j - 52))) * 2 powi (j - 52)"
    using up by (simp only: mult_le_cancel_right_pos)
  then have "(2::rat) powi j \<le> of_int (round_half_even (v / 2 powi (j - 52))) * 2 powi (j - 52)"
    by (simp only: sp)
  moreover have "(2::rat) powi 1024 \<le> 2 powi j" using j by (rule two_powi_mono)
  ultimately have "(2::rat) ^ 1024 \<le> of_int (round_half_even (v / 2 powi (j - 52))) * 2 powi (j - 52)"
    by simp
  then show ?thesis
    unfolding roundPos_def Let_def j_def [symmetric] mx by (simp only: if_True)
qed

lemma toDouble_overflow: "2 ^ 1024 \<le> v \<Longrightarrow> toDouble neg v = (if neg then NegInfinity else PosInfinity)"
proof -
  assume a: "2 ^ 1024 \<le> v"
  then have "v \<noteq> 0" by auto
  with roundPos_overflow [OF a] show ?thesis by (simp add: toDouble_def)
qed

lemma toDouble_huge:
  assumes "1024 \<le> 3 * n" "0 < s"
  shows "toDouble neg (of_nat s * 10 powi int n) = (if neg then NegInfinity else PosInfinity)"
proof -
  have "(2::rat) ^ 1024 \<le> 2 ^ (3 * n)" by (rule power_increasing) (use assms in simp_all)
  also have "\<dots> = (2 ^ 3) ^ n" by (simp only: power_mult)
  also have "\<dots> \<le> 10 ^ n" by (rule power_mono) simp_all
  also have "\<dots> \<le> of_nat s * 10 ^ n" using assms(2) by simp
  finally have "(2::rat) ^ 1024 \<le> of_nat s * 10 powi int n" by (simp only: power_int_of_nat)
  then show ?thesis by (rule toDouble_overflow)
qed

lemma round_half_even_le: "y \<le> of_int M \<Longrightarrow> round_half_even y \<le> M"
proof -
  assume a: "y \<le> of_int M"
  have fl: "\<lfloor>y\<rfloor> \<le> M" using a by (simp add: floor_le_iff) 
  show ?thesis
  proof (cases "\<lfloor>y\<rfloor> = M")
    case True
    have "of_int \<lfloor>y\<rfloor> \<le> y" by simp
    with a True have "y - of_int \<lfloor>y\<rfloor> = 0" by simp
    then show ?thesis using True by (simp add: round_half_even_def Let_def)
  next
    case False
    with fl have "\<lfloor>y\<rfloor> + 1 \<le> M" by simp
    then show ?thesis by (simp add: round_half_even_def Let_def)
  qed
qed

lemma roundPos_idem:
  assumes vp: "0 < v" and rv: "roundPos v = Some x" and xn: "x \<noteq> 0"
  shows "roundPos x = Some x"
proof -
  define i where "i = ilog 2 v"
  define e where "e = max i (- 1022)"
  define u :: rat where "u = 2 powi (e - 52)"
  define m where "m = round_half_even (v / u)"
  have up: "0 < u" by (simp add: u_def)
  from rv have xm: "x = of_int m * u" and xb: "x < 2 ^ 1024"
    unfolding roundPos_def Let_def i_def [symmetric] e_def [symmetric] u_def [symmetric]
      m_def [symmetric]
    by (simp_all split: if_splits)
  from ilog_bounds [OF vp, of 2] have vlo: "2 powi i \<le> v" and vhi: "v < 2 powi (i + 1)"
    by (simp_all add: i_def)
  have e1022: "- 1022 \<le> e" and ie: "i \<le> e" by (simp_all add: e_def)
  have pe: "(2::rat) powi e = of_int (2 ^ 52) * u"
    unfolding u_def using two_powi_split [of "e - 52" e] by simp
  have pe1: "(2::rat) powi (e + 1) = of_int (2 ^ 53) * u"
    unfolding u_def using two_powi_split [of "e - 52" "e + 1"] by simp
  have "of_int 0 \<le> v / u" using vp up by simp
  then have m0: "0 \<le> m" unfolding m_def by (rule round_half_even_ge)
  with xn xm have m1: "1 \<le> m" by (cases "m = 0") simp_all
  have "(2::rat) powi (i + 1) \<le> 2 powi (e + 1)" using ie by (intro two_powi_mono) simp
  with vhi have "v < of_int (2 ^ 53) * u" by (simp only: pe1)
  then have "v / u \<le> of_int (2 ^ 53)" using up by (simp add: pos_divide_le_eq)
  then have m53: "m \<le> 2 ^ 53" unfolding m_def by (rule round_half_even_le)
  have xp: "0 < x" unfolding xm using m1 up by simp
  have sub: "e = - 1022" if "m < 2 ^ 52"
  proof (rule ccontr)
    assume "e \<noteq> - 1022"
    then have "e = i" by (simp add: e_def)
    with vlo have "of_int (2 ^ 52) * u \<le> v" by (simp only: pe [symmetric])
    then have "of_int (2 ^ 52) \<le> v / u" using up by (simp add: pos_le_divide_eq)
    then have "2 ^ 52 \<le> m" unfolding m_def by (rule round_half_even_ge)
    with that show False by simp
  qed
  have "\<exists>m'. x = of_int m' * 2 powi (max (ilog 2 x) (- 1022) - 52)"
  proof -
    consider (top) "m = 2 ^ 53" | (normal) "2 ^ 52 \<le> m" "m < 2 ^ 53" | (low) "m < 2 ^ 52"
      using m53 by linarith
    then show ?thesis
    proof cases
      case top
      then have xe: "x = 2 powi (e + 1)" by (simp add: xm pe1)
      have "(2::rat) powi (e + 1) < 2 * 2 powi (e + 1)" using two_powi_pos [of "e + 1"] by simp
      then have "x < 2 powi (e + 1 + 1)" by (simp only: xe two_powi_Suc [of "e + 1"])
      moreover have "2 powi (e + 1) \<le> x" by (simp only: xe)
      ultimately have "ilog 2 x = e + 1"
        by (intro ilog_unique [OF xp]) simp_all
      then have "max (ilog 2 x) (- 1022) - 52 = e + 1 - 52" using e1022 by simp
      moreover have "x = of_int (2 ^ 52) * 2 powi (e + 1 - 52)"
        unfolding xe using two_powi_split [of "e + 1 - 52" "e + 1"] by simp
      ultimately show ?thesis by metis
    next
      case normal
      from normal(1) have "(of_int (2 ^ 52) :: rat) \<le> of_int m" by (simp only: of_int_le_iff)
      then have "of_int (2 ^ 52) * u \<le> of_int m * u"
        using up by (simp only: mult_le_cancel_right_pos)
      then have lo: "2 powi e \<le> x" by (simp only: pe xm)
      from normal(2) have "(of_int m :: rat) < of_int (2 ^ 53)" by (simp only: of_int_less_iff)
      then have "of_int m * u < of_int (2 ^ 53) * u"
        using up by (simp only: mult_less_cancel_right_pos)
      then have hi: "x < 2 powi (e + 1)" by (simp only: pe1 xm)
      have "ilog 2 x = e"
        by (rule ilog_unique [OF xp]) (use lo hi in simp_all)
      then have "max (ilog 2 x) (- 1022) - 52 = e - 52" using e1022 by simp
      then show ?thesis using xm unfolding u_def by metis
    next
      case low
      from sub [OF low] have e: "e = - 1022" .
      from low have "(of_int m :: rat) < of_int (2 ^ 52)" by (simp only: of_int_less_iff)
      then have "of_int m * u < of_int (2 ^ 52) * u"
        using up by (simp only: mult_less_cancel_right_pos)
      then have hi: "x < 2 powi e" by (simp only: pe xm)
      from ilog_bounds [OF xp, of 2] have "2 powi (ilog 2 x) \<le> x" by simp
      with hi have "(2::rat) powi (ilog 2 x) < 2 powi e" by simp
      then have "ilog 2 x < e" by (rule two_powi_strict)
      then have "max (ilog 2 x) (- 1022) - 52 = e - 52" using e by simp
      then show ?thesis using xm unfolding u_def by metis
    qed
  qed
  then obtain m' where x': "x = of_int m' * 2 powi (max (ilog 2 x) (- 1022) - 52)" ..
  show ?thesis
    by (rule roundPos_near [OF xp x' _ xb]) simp
qed

lemma isDouble_toDouble:
  assumes "0 \<le> v"
  shows "isDouble (toDouble neg v)"
proof (cases "v = 0")
  case True
  then show ?thesis by (simp add: toDouble_def)
next
  case False
  with assms have vp: "0 < v" by simp
  show ?thesis
  proof (cases "roundPos v")
    case None
    with False show ?thesis by (simp add: toDouble_def)
  next
    case (Some x)
    show ?thesis
    proof (cases "x = 0")
      case True
      with Some False show ?thesis by (simp add: toDouble_def)
    next
      case xn: False
      have "0 \<le> x"
        using Some vp unfolding roundPos_def Let_def
        by (auto split: if_splits intro!: mult_nonneg_nonneg round_half_even_ge [of 0, simplified])
      with roundPos_idem [OF vp Some xn] Some False xn show ?thesis
        by (simp add: toDouble_def)
    qed
  qed
qed

lemma candidate_some:
  assumes "toDouble False (of_nat (nat \<lfloor>x / 10 powi (n0 - int k)\<rfloor>) * 10 powi (n0 - int k)) = Finite x \<or>
           toDouble False (of_nat (nat \<lfloor>x / 10 powi (n0 - int k)\<rfloor> + 1) * 10 powi (n0 - int k)) = Finite x"
  shows "candidate x n0 k \<noteq> None"
proof -
  define lo where "lo = nat \<lfloor>x / 10 powi (n0 - int k)\<rfloor>"
  define hi where "hi = lo + 1"
  define sc :: rat where "sc = 10 powi (n0 - int k)"
  note a = assms [folded lo_def, folded hi_def, folded sc_def]
  have c: "candidate x n0 k =
     (if toDouble False (of_nat lo * sc) = Finite x \<and>
         (toDouble False (of_nat hi * sc) \<noteq> Finite x \<or>
          x - of_nat lo * sc < of_nat hi * sc - x \<or>
          (x - of_nat lo * sc = of_nat hi * sc - x \<and> even lo))
      then Some (lo, n0)
      else if toDouble False (of_nat hi * sc) = Finite x
        then (if hi = 10 ^ k then Some (10 ^ (k - 1), n0 + 1) else Some (hi, n0))
        else None)"
    unfolding candidate_unfold lo_def hi_def sc_def by (rule refl)
  show ?thesis
  proof (cases "toDouble False (of_nat lo * sc) = Finite x \<and>
         (toDouble False (of_nat hi * sc) \<noteq> Finite x \<or>
          x - of_nat lo * sc < of_nat hi * sc - x \<or>
          (x - of_nat lo * sc = of_nat hi * sc - x \<and> even lo))")
    case True
    have "candidate x n0 k = Some (lo, n0)" unfolding c by (simp only: if_P [OF True])
    then show ?thesis by simp
  next
    case False
    with a have ok: "toDouble False (of_nat hi * sc) = Finite x" by blast
    have "candidate x n0 k = (if hi = 10 ^ k then Some (10 ^ (k - 1), n0 + 1) else Some (hi, n0))"
      unfolding c by (simp only: if_not_P [OF False] if_P [OF ok])
    then show ?thesis by (simp split: if_split)
  qed
qed

lemma toDouble_roundPos:
  "roundPos v = Some x \<Longrightarrow> v \<noteq> 0 \<Longrightarrow> x \<noteq> 0 \<Longrightarrow> toDouble False v = Finite x"
  by (simp add: toDouble_def)

lemma ten_powi_split: "(10::rat) powi (a + int n) = 10 powi a * 10 ^ n"
proof -
  have "(10::rat) powi (a + int n) = 10 powi a * 10 powi (int n)" by (rule power_int_add) simp
  then show ?thesis by simp
qed

lemma seventeen_digits:
  assumes xp: "0 < x" and rx: "roundPos x = Some x"
  shows "candidate x (ilog 10 x + 1) 17 \<noteq> None"
proof -
  define n0 where "n0 = ilog 10 x + 1"
  define sc :: rat where "sc = 10 powi (n0 - int 17)"
  define t where "t = x / sc"
  define lo where "lo = nat \<lfloor>t\<rfloor>"
  have scp: "0 < sc" by (simp add: sc_def)
  from ilog_bounds [OF xp, of 10] have xl: "10 powi (n0 - 1) \<le> x" by (simp add: n0_def)
  have "(10::rat) powi (n0 - int 17 + int 16) = 10 powi (n0 - int 17) * 10 ^ 16"
    by (rule ten_powi_split)
  then have s16: "(10::rat) powi (n0 - 1) = sc * 10 ^ 16" by (simp add: sc_def)
  from xl s16 have scx: "sc * 10 ^ 16 \<le> x" by simp
  then have t16: "10 ^ 16 \<le> t" using scp by (simp add: t_def field_simps)
  then have "(of_int (10 ^ 16) :: rat) \<le> t" by simp
  then have "10 ^ 16 \<le> \<lfloor>t\<rfloor>" by (simp only: le_floor_iff)
  then have fl: "0 < \<lfloor>t\<rfloor>" by simp
  then have lo_eq: "(of_nat lo :: rat) = of_int \<lfloor>t\<rfloor>" by (simp add: lo_def)
  have lop: "0 < lo" using fl by (simp add: lo_def)
  have ts: "t * sc = x" using scp by (simp add: t_def)
  have f1: "of_int \<lfloor>t\<rfloor> \<le> t" and f2: "t < of_int \<lfloor>t\<rfloor> + 1" by linarith+
  from f1 have "of_int \<lfloor>t\<rfloor> * sc \<le> t * sc" using scp by (simp only: mult_le_cancel_right_pos)
  then have b1: "of_nat lo * sc \<le> x" by (simp only: lo_eq ts)
  from f2 have "t * sc < (of_int \<lfloor>t\<rfloor> + 1) * sc" using scp by (simp only: mult_less_cancel_right_pos)
  then have b2: "x < of_nat lo * sc + sc" by (simp only: lo_eq ts) (simp add: algebra_simps)
  have "sc / 2 \<le> x / (2 * 10 ^ 16)" using scx by (simp add: field_simps)
  also have "\<dots> < x / 2 ^ 54" using xp by (simp add: field_simps)
  finally have half: "sc / 2 < x / 2 ^ 54" .
  have xnz: "x \<noteq> 0" using xp by simp
  have "toDouble False (of_nat lo * sc) = Finite x \<or>
        toDouble False (of_nat (lo + 1) * sc) = Finite x"
  proof (cases "x - of_nat lo * sc \<le> sc / 2")
    case True
    have vp: "0 < of_nat lo * sc" using lop scp by simp
    have "\<bar>of_nat lo * sc - x\<bar> = x - of_nat lo * sc" using b1 by simp
    with True half have near: "\<bar>of_nat lo * sc - x\<bar> < x / 2 ^ 54" by simp
    have vnz: "of_nat lo * sc \<noteq> 0" using lop scp by simp
    have "toDouble False (of_nat lo * sc) = Finite x"
      by (rule toDouble_roundPos [OF roundPos_stable [OF xp rx vp near] vnz xnz])
    then show ?thesis ..
  next
    case False
    have vp: "0 < of_nat (lo + 1) * sc" using scp by simp
    have e: "of_nat (lo + 1) * sc = of_nat lo * sc + sc" by (simp add: algebra_simps)
    have "\<bar>of_nat (lo + 1) * sc - x\<bar> = of_nat lo * sc + sc - x"
      unfolding e using b2 by (simp only: abs_of_pos diff_gt_0_iff_gt)
    with False half have near: "\<bar>of_nat (lo + 1) * sc - x\<bar> < x / 2 ^ 54" by simp
    have vnz: "of_nat (lo + 1) * sc \<noteq> 0" using scp by simp
    have "toDouble False (of_nat (lo + 1) * sc) = Finite x"
      by (rule toDouble_roundPos [OF roundPos_stable [OF xp rx vp near] vnz xnz])
    then show ?thesis ..
  qed
  then show ?thesis
    unfolding n0_def [symmetric]
    by (intro candidate_some) (simp only: sc_def [symmetric] t_def [symmetric] lo_def [symmetric])
qed

lemma candidate_cases:
  assumes "candidate x n0 k = Some (s, n)"
  shows "s = nat \<lfloor>x / 10 powi (n0 - int k)\<rfloor> \<or>
         (s = nat \<lfloor>x / 10 powi (n0 - int k)\<rfloor> + 1 \<and> s \<noteq> 10 ^ k) \<or> s = 10 ^ (k - 1)"
proof -
  define lo where "lo = nat \<lfloor>x / 10 powi (n0 - int k)\<rfloor>"
  define hi where "hi = lo + 1"
  define sc :: rat where "sc = 10 powi (n0 - int k)"
  note c = assms [unfolded candidate_unfold, folded lo_def, folded hi_def, folded sc_def]
  show ?thesis
    unfolding lo_def [symmetric] hi_def [symmetric]
  proof (cases "toDouble False (of_nat lo * sc) = Finite x \<and>
         (toDouble False (of_nat hi * sc) \<noteq> Finite x \<or>
          x - of_nat lo * sc < of_nat hi * sc - x \<or>
          (x - of_nat lo * sc = of_nat hi * sc - x \<and> even lo))")
    case True
    from c have "Some (lo, n0) = Some (s, n)" by (simp only: if_P [OF True])
    then show "s = lo \<or> (s = hi \<and> s \<noteq> 10 ^ k) \<or> s = 10 ^ (k - 1)" by simp
  next
    case F: False
    show "s = lo \<or> (s = hi \<and> s \<noteq> 10 ^ k) \<or> s = 10 ^ (k - 1)"
    proof (cases "toDouble False (of_nat hi * sc) = Finite x")
      case ok: True
      show ?thesis
      proof (cases "hi = 10 ^ k")
        case True
        from c have "Some (10 ^ (k - 1), n0 + 1) = Some (s, n)"
          by (simp only: if_not_P [OF F] if_P [OF ok] if_P [OF True])
        then show ?thesis by simp
      next
        case False
        from c have "Some (hi, n0) = Some (s, n)"
          by (simp only: if_not_P [OF F] if_P [OF ok] if_not_P [OF False])
        with False show ?thesis by auto
      qed
    next
      case False
      from c have "None = Some (s, n)" by (simp only: if_not_P [OF F] if_not_P [OF False])
      then show ?thesis by simp
    qed
  qed
qed

lemma candidate_digits:
  assumes c: "candidate x n0 k = Some (s, n)" and kp: "0 < k"
    and lo: "10 powi (n0 - 1) \<le> x" and hi: "x < 10 powi n0"
  shows "10 ^ (k - 1) \<le> s \<and> s < 10 ^ k"
proof -
  define sc :: rat where "sc = 10 powi (n0 - int k)"
  define t where "t = x / sc"
  have scp: "0 < sc" by (simp add: sc_def)
  have "(10::rat) powi (n0 - int k + int k) = 10 powi (n0 - int k) * 10 ^ k" by (rule ten_powi_split)
  then have top: "(10::rat) powi n0 = sc * 10 ^ k" by (simp add: sc_def)
  have "(10::rat) powi (n0 - int k + int (k - 1)) = 10 powi (n0 - int k) * 10 ^ (k - 1)"
    by (rule ten_powi_split)
  moreover have "n0 - int k + int (k - 1) = n0 - 1" using kp by simp
  ultimately have bot: "(10::rat) powi (n0 - 1) = sc * 10 ^ (k - 1)" by (simp add: sc_def)
  have ts: "t * sc = x" using scp by (simp add: t_def)
  have "10 ^ (k - 1) * sc \<le> t * sc" unfolding ts using lo bot by (simp add: mult.commute)
  then have t1: "10 ^ (k - 1) \<le> t" using scp by (simp only: mult_le_cancel_right_pos)
  have "t * sc < 10 ^ k * sc" unfolding ts using hi top by (simp add: mult.commute)
  then have t2: "t < 10 ^ k" using scp by (simp only: mult_less_cancel_right_pos)
  from t1 have "(of_int (10 ^ (k - 1)) :: rat) \<le> t" by simp
  then have f1: "10 ^ (k - 1) \<le> \<lfloor>t\<rfloor>" by (simp only: le_floor_iff)
  from t2 have "t < (of_int (10 ^ k) :: rat)" by simp
  then have f2: "\<lfloor>t\<rfloor> < 10 ^ k" by (simp only: floor_less_iff)
  define l where "l = nat \<lfloor>t\<rfloor>"
  from f1 have "0 \<le> \<lfloor>t\<rfloor>" by (meson order_trans zero_le_numeral zero_le_power)
  then have il: "int l = \<lfloor>t\<rfloor>" by (simp add: l_def)
  from f1 il have "int (10 ^ (k - 1)) \<le> int l" by simp
  then have l1: "10 ^ (k - 1) \<le> l" by (simp only: of_nat_le_iff)
  from f2 il have "int l < int (10 ^ k)" by simp
  then have l2: "l < 10 ^ k" by (simp only: of_nat_less_iff)
  have pw: "(10::nat) ^ (k - 1) < 10 ^ k" using kp by (intro power_strict_increasing) simp_all
  from candidate_cases [OF c, folded sc_def, folded t_def, folded l_def]
  show ?thesis using l1 l2 pw by auto
qed

lemma shortest_digits:
  "shortest x n0 k f = Some (s, k', n) \<Longrightarrow> 0 < k \<Longrightarrow> 10 powi (n0 - 1) \<le> x \<Longrightarrow>
     x < 10 powi n0 \<Longrightarrow> 0 < k' \<and> 10 ^ (k' - 1) \<le> s \<and> s < 10 ^ k'"
proof (induction f arbitrary: k)
  case 0
  then show ?case by simp
next
  case (Suc f)
  show ?case
  proof (cases "candidate x n0 k")
    case None
    with Suc.prems have "shortest x n0 (Suc k) f = Some (s, k', n)" by simp
    from Suc.IH [OF this _ Suc.prems(3,4)] show ?thesis by simp
  next
    case (Some r)
    obtain s0 n1 where r: "r = (s0, n1)" by (cases r)
    with Some Suc.prems have e: "s = s0" "k' = k" "n = n1" by simp_all
    from candidate_digits [OF Some [unfolded r] Suc.prems(2,3,4)] e Suc.prems(2)
    show ?thesis by simp
  qed
qed

lemma length_digits10:
  "0 < k \<Longrightarrow> 10 ^ (k - 1) \<le> s \<Longrightarrow> s < 10 ^ k \<Longrightarrow> length (digits10 s) = k"
proof (induction k arbitrary: s)
  case 0
  then show ?case by simp
next
  case (Suc k)
  show ?case
  proof (cases "k = 0")
    case True
    with Suc.prems have "s < 10" by simp
    with True show ?thesis by (simp add: digits10.simps [of s])
  next
    case False
    then have kp: "0 < k" by simp
    from Suc.prems(2) kp have s10: "10 \<le> s"
      by (metis One_nat_def Suc_pred diff_Suc_1 le_trans one_le_numeral power_Suc power_increasing power_one_right self_le_ge2_pow numeral_le_iff semiring_norm(69) mult.commute le_refl one_le_power mult_le_mono1 nat_mult_1)
    from Suc.prems(2) kp have "10 * 10 ^ (k - 1) \<le> s"
      by (cases k) simp_all
    then have a: "10 ^ (k - 1) \<le> s div 10" by simp
    from Suc.prems(3) have b: "s div 10 < 10 ^ k" by (simp add: div_less_iff_less_mult mult.commute)
    from Suc.IH [OF kp a b] s10 show ?thesis by (simp add: digits10.simps [of s])
  qed
qed

lemma shortest_double:
  assumes xp: "0 < x" and rx: "roundPos x = Some x"
  shows "\<exists>s k n. shortest x (ilog 10 x + 1) 1 17 = Some (s, k, n) \<and> 0 < k \<and>
           length (digits10 s) = k \<and> 0 < s \<and>
           toDouble False (of_nat s * 10 powi (n - int k)) = Finite x"
proof -
  from ilog_bounds [OF xp, of 10]
  have lo: "10 powi (ilog 10 x + 1 - 1) \<le> x" and hi: "x < 10 powi (ilog 10 x + 1)" by simp_all
  from shortest_complete [OF seventeen_digits [OF xp rx], of 1 17]
  obtain s k n where sh: "shortest x (ilog 10 x + 1) 1 17 = Some (s, k, n)" by auto
  from xp have xnz: "x \<noteq> 0" by simp
  from shortest_sound [OF sh xnz] have td: "toDouble False (of_nat s * 10 powi (n - int k)) = Finite x"
    and sp: "0 < s" by simp_all
  from shortest_digits [OF sh _ lo hi] have kp: "0 < k" and b: "10 ^ (k - 1) \<le> s" "s < 10 ^ k"
    by simp_all
  from length_digits10 [OF kp b] sh kp sp td show ?thesis by blast
qed

section \<open>Every double survives printing and parsing\<close>

text \<open>
  \<open>parse_number\<close> reads each of the five layouts of \<open>formatNumber\<close> as the digits and
  the exponent that were laid out (\<open>formatNumber_parse\<close>); so it reads the numeral of a
  finite double other than \<open>-0\<close> as that double (\<open>numberToString_parse\<close>).
\<close>

lemma ends_number_stops: "ends_number rest \<Longrightarrow> stops_digits rest"
  by (auto simp add: ends_number_def stops_digits_def)

lemma span_digits:
  "list_all isDigit ds \<Longrightarrow> stops_digits r \<Longrightarrow>
     takeWhile isDigit (ds @ r) = ds \<and> dropWhile isDigit (ds @ r) = r"
  by (induction ds) (auto simp add: stops_digits_def takeWhile_eq_Nil_iff dropWhile_eq_self_iff)

lemma scan_fraction_none:
  "r = [] \<or> hd r \<noteq> 0x2E \<Longrightarrow> scan_fraction r = Some ([], r)"
  by (cases r) (auto simp add: scan_fraction_def)

lemma scan_fraction_some:
  assumes "fp \<noteq> []" "list_all isDigit fp" "stops_digits t"
  shows "scan_fraction (0x2E # fp @ t) = Some (fp, t)"
  using span_digits [OF assms(2,3)] assms(1) by (simp add: scan_fraction_def)

lemma scan_exponent_none:
  "r = [] \<or> (hd r \<noteq> 0x65 \<and> hd r \<noteq> 0x45) \<Longrightarrow> scan_exponent r = Some (0, r)"
  by (cases r) (auto simp add: scan_exponent_def)

lemma scan_exponent_some:
  assumes "eds \<noteq> []" "list_all isDigit eds" "stops_digits t"
  shows "scan_exponent (0x65 # (if neg then 0x2D else 0x2B) # eds @ t) =
           Some ((if neg then - 1 else 1) * int (decimalValue eds), t)"
  using span_digits [OF assms(2,3)] assms(1) by (simp add: scan_exponent_def)

lemma parse_number_nonzero:
  assumes ne: "ds \<noteq> []" and dg: "list_all isDigit ds" and nz: "hd ds \<noteq> 0x30"
    and st: "stops_digits r1"
    and sf: "scan_fraction r1 = Some (fp, r2)" and se: "scan_exponent r2 = Some (ex, r3)"
  shows "parse_number ((if neg then [0x2D] else []) @ ds @ r1) =
           Some (toDouble neg (of_nat (decimalValue (ds @ fp)) * 10 powi (ex - int (length fp))), r3)"
proof -
  from ne obtain c r where ds: "ds = c # r" by (cases ds) auto
  from dg ds have dc: "isDigit c" by simp
  from nz ds have c0: "c \<noteq> 0x30" by simp
  from span_digits [OF dg st] ds
  have tw: "takeWhile isDigit (c # r @ r1) = c # r" and dw: "dropWhile isDigit (c # r @ r1) = r1"
    by simp_all
  show ?thesis
  proof (cases neg)
    case True
    then show ?thesis
      unfolding ds parse_number_def Let_def using dc c0 tw dw sf se by simp
  next
    case False
    then show ?thesis
      unfolding ds parse_number_def Let_def using dc c0 not_minus_digit [OF dc] tw dw sf se by simp
  qed
qed

lemma parse_number_zero_int:
  assumes sf: "scan_fraction r1 = Some (fp, r2)" and se: "scan_exponent r2 = Some (ex, r3)"
  shows "parse_number ((if neg then [0x2D] else []) @ 0x30 # r1) =
           Some (toDouble neg (of_nat (decimalValue (0x30 # fp)) * 10 powi (ex - int (length fp))), r3)"
proof (cases neg)
  case True
  then show ?thesis
    unfolding parse_number_def Let_def using sf se by (simp add: isDigit_zero)
next
  case False
  then show ?thesis
    unfolding parse_number_def Let_def using sf se by (simp add: isDigit_zero)
qed

lemma decimalValue_Cons_zero: "decimalValue (0x30 # ds) = decimalValue ds"
  by (simp add: decimalValue_def)

lemma decimalValue_leading_zeros: "decimalValue (replicate z 0x30 @ ds) = decimalValue ds"
  by (induction z) (simp_all add: decimalValue_Cons_zero)

lemma not_digit_punct: "\<not> isDigit 0x2E" "\<not> isDigit 0x65" "\<not> isDigit 0x2D" "\<not> isDigit 0x2B"
  by (simp_all add: isDigit_def)

lemma ten_powi_nat: "0 \<le> j \<Longrightarrow> (10::rat) powi j = 10 ^ nat j"
  by (simp add: power_int_def)

lemma formatNumber_parse:
  assumes sp: "0 < s" and len: "length (digits10 s) = k" and en: "ends_number rest"
  shows "parse_number ((if neg then [0x2D] else []) @ formatNumber s k n @ rest) =
           Some (toDouble neg (of_nat s * 10 powi (n - int k)), rest)"
proof -
  define ds where "ds = digits10 s"
  have ne: "ds \<noteq> []" by (simp add: ds_def digits10_nonempty)
  have dg: "list_all isDigit ds" by (simp add: ds_def digits10_all_digits)
  have nz: "hd ds \<noteq> 0x30" using hd_digits10 [OF sp] by (simp add: ds_def)
  have val: "decimalValue ds = s" by (simp add: ds_def decimalValue_digits10)
  have lk: "length ds = k" using len by (simp add: ds_def)
  have kp: "0 < k" using ne lk by auto
  note str = ends_number_stops [OF en]
  from en have nodot: "rest = [] \<or> hd rest \<noteq> 0x2E" and noexp: "rest = [] \<or> (hd rest \<noteq> 0x65 \<and> hd rest \<noteq> 0x45)"
    by (auto simp add: ends_number_def)
  define e where "e = n - 1"
  define eds where "eds = digits10 (nat \<bar>e\<bar>)"
  have ene: "eds \<noteq> []" by (simp add: eds_def digits10_nonempty)
  have edg: "list_all isDigit eds" by (simp add: eds_def digits10_all_digits)
  have eval: "decimalValue eds = nat \<bar>e\<bar>" by (simp add: eds_def decimalValue_digits10)
  have expo: "scan_exponent (0x65 # (if e < 0 then 0x2D else 0x2B) # eds @ rest) = Some (e, rest)"
    using scan_exponent_some [OF ene edg str, of "e < 0"] by (simp add: eval)
  consider (int) "int k \<le> n" "n \<le> 21"
    | (point) "\<not> (int k \<le> n \<and> n \<le> 21)" "0 < n" "n \<le> 21"
    | (small) "\<not> (int k \<le> n \<and> n \<le> 21)" "\<not> (0 < n \<and> n \<le> 21)" "- 6 < n" "n \<le> 0"
    | (exp1) "\<not> (int k \<le> n \<and> n \<le> 21)" "\<not> (0 < n \<and> n \<le> 21)" "\<not> (- 6 < n \<and> n \<le> 0)" "k = 1"
    | (expk) "\<not> (int k \<le> n \<and> n \<le> 21)" "\<not> (0 < n \<and> n \<le> 21)" "\<not> (- 6 < n \<and> n \<le> 0)" "k \<noteq> 1"
    by blast
  then show ?thesis
  proof cases
    case int
    define z where "z = nat (n - int k)"
    have f: "formatNumber s k n = ds @ replicate z 0x30"
      using int by (simp add: formatNumber_def ds_def z_def Let_def)
    have dg': "list_all isDigit (ds @ replicate z 0x30)"
      using dg isDigit_zero by (auto simp add: list_all_iff)
    have v: "decimalValue ((ds @ replicate z 0x30) @ []) = s * 10 ^ z"
      using decimalValue_zeros [of ds z] val by simp
    have p: "(10::rat) powi (n - int k) = 10 ^ z" using int by (simp add: ten_powi_nat z_def)
    from parse_number_nonzero [of "ds @ replicate z 0x30" rest "[]" rest 0 rest neg,
        OF _ dg' _ str scan_fraction_none [OF nodot] scan_exponent_none [OF noexp]] ne nz
    show ?thesis unfolding f v by (simp add: p)
  next
    case point
    then have nk: "nat n < k" by auto
    define ip where "ip = take (nat n) ds"
    define fp where "fp = drop (nat n) ds"
    have f: "formatNumber s k n = ip @ 0x2E # fp"
      using point by (simp add: formatNumber_def ds_def ip_def fp_def Let_def)
    have ipne: "ip \<noteq> []" using point ne by (simp add: ip_def)
    have ipd: "list_all isDigit ip" using dg by (auto simp add: ip_def list_all_iff dest: in_set_takeD)
    have iph: "hd ip \<noteq> 0x30" using nz point ne by (simp add: ip_def)
    have fpne: "fp \<noteq> []" using nk lk by (simp add: fp_def)
    have fpd: "list_all isDigit fp" using dg by (auto simp add: fp_def list_all_iff dest: in_set_dropD)
    have fl: "int (length fp) = int k - n" using nk lk point by (simp add: fp_def)
    have st: "stops_digits (0x2E # fp @ rest)" by (simp add: stops_digits_def not_digit_punct)
    have v: "decimalValue (ip @ fp) = s" using val by (simp add: ip_def fp_def)
    from parse_number_nonzero [OF ipne ipd iph st scan_fraction_some [OF fpne fpd str]
        scan_exponent_none [OF noexp], of neg]
    show ?thesis unfolding f v fl by simp
  next
    case small
    define z where "z = nat (- n)"
    define fp where "fp = replicate z 0x30 @ ds"
    have f: "formatNumber s k n = 0x30 # 0x2E # fp"
      using small by (simp add: formatNumber_def ds_def z_def fp_def Let_def)
    have fpne: "fp \<noteq> []" using ne by (simp add: fp_def)
    have fpd: "list_all isDigit fp" using dg isDigit_zero by (auto simp add: fp_def list_all_iff)
    have fl: "0 - int (length fp) = n - int k" using small lk by (simp add: fp_def z_def)
    have v: "decimalValue (0x30 # fp) = s"
      using val by (simp add: fp_def decimalValue_Cons_zero decimalValue_leading_zeros)
    from parse_number_zero_int [OF scan_fraction_some [OF fpne fpd str] scan_exponent_none [OF noexp], of neg]
    show ?thesis unfolding f v fl by simp
  next
    case exp1
    have "formatNumber s k n = ds @ [0x65] @ ((if e < 0 then 0x2D else 0x2B) # eds)"
      unfolding formatNumber_def Let_def
      by (simp only: if_not_P [OF exp1(1)] if_not_P [OF exp1(2)] if_not_P [OF exp1(3)]
          if_P [OF exp1(4)] ds_def eds_def e_def)
    then have f: "formatNumber s k n = ds @ 0x65 # (if e < 0 then 0x2D else 0x2B) # eds"
      by simp
    have st: "stops_digits (0x65 # (if e < 0 then 0x2D else 0x2B) # eds @ rest)"
      by (simp add: stops_digits_def not_digit_punct)
    have sf: "scan_fraction (0x65 # (if e < 0 then 0x2D else 0x2B) # eds @ rest) =
        Some ([], 0x65 # (if e < 0 then 0x2D else 0x2B) # eds @ rest)"
      by (rule scan_fraction_none) simp
    have v: "decimalValue (ds @ []) = s" using val by simp
    have ex: "e - int (length ([] :: jsstring)) = n - int k" using exp1 by (simp add: e_def)
    from parse_number_nonzero [OF ne dg nz st sf expo, of neg]
    show ?thesis unfolding f v ex by simp
  next
    case expk
    then have k1: "1 < k" using kp by simp
    define ip where "ip = take 1 ds"
    define fp where "fp = drop 1 ds"
    have "formatNumber s k n =
        ip @ [0x2E] @ fp @ [0x65] @ ((if e < 0 then 0x2D else 0x2B) # eds)"
      unfolding formatNumber_def Let_def
      by (simp only: if_not_P [OF expk(1)] if_not_P [OF expk(2)] if_not_P [OF expk(3)]
          if_not_P [OF expk(4)] ds_def eds_def e_def ip_def fp_def)
    then have f: "formatNumber s k n = ip @ 0x2E # fp @ 0x65 # (if e < 0 then 0x2D else 0x2B) # eds"
      by simp
    have ipne: "ip \<noteq> []" using ne by (simp add: ip_def)
    have ipd: "list_all isDigit ip" using dg by (auto simp add: ip_def list_all_iff dest: in_set_takeD)
    have iph: "hd ip \<noteq> 0x30" using nz ne by (simp add: ip_def)
    have fpne: "fp \<noteq> []" using k1 lk by (simp add: fp_def)
    have fpd: "list_all isDigit fp" using dg by (auto simp add: fp_def list_all_iff dest: in_set_dropD)
    have fl: "e - int (length fp) = n - int k" using k1 lk by (simp add: fp_def e_def)
    have st: "stops_digits (0x2E # fp @ 0x65 # (if e < 0 then 0x2D else 0x2B) # eds @ rest)"
      by (simp add: stops_digits_def not_digit_punct)
    have st': "stops_digits (0x65 # (if e < 0 then 0x2D else 0x2B) # eds @ rest)"
      by (simp add: stops_digits_def not_digit_punct)
    have v: "decimalValue (ip @ fp) = s" using val by (simp add: ip_def fp_def)
    from parse_number_nonzero [OF ipne ipd iph st scan_fraction_some [OF fpne fpd st'] expo, of neg]
    show ?thesis unfolding f v fl by simp
  qed
qed

lemma numberToString_parse:
  assumes "isDouble x" "isFinite x" "x \<noteq> NegZero" "ends_number rest"
  shows "parse_number (numberToString x @ rest) = Some (x, rest)"
proof -
  from assms(2,3) obtain q where x: "x = Finite q" by (cases x) simp_all
  consider (zero) "q = 0" | (pos) "0 < q" | (neg) "q < 0" by linarith
  then show ?thesis
  proof cases
    case zero
    with x show ?thesis using parse_number_zero [OF assms(4)] by (simp add: js_def)
  next
    case pos
    with assms(1) x have rx: "roundPos q = Some q" by simp
    from shortest_double [OF pos rx] obtain s k n where
      sh: "shortest q (ilog 10 q + 1) 1 17 = Some (s, k, n)" and len: "length (digits10 s) = k"
      and sp: "0 < s" and td: "toDouble False (of_nat s * 10 powi (n - int k)) = Finite q"
      by blast
    from sh have "positiveToString q = formatNumber s k n" by (simp add: positiveToString_def)
    with pos have "numberToString x = formatNumber s k n" by (simp add: x)
    with formatNumber_parse [OF sp len assms(4), of False n] td show ?thesis by (simp add: x)
  next
    case neg
    then have pos: "0 < - q" by simp
    from neg assms(1) x have rx: "roundPos (- q) = Some (- q)" by simp
    from shortest_double [OF pos rx] obtain s k n where
      sh: "shortest (- q) (ilog 10 (- q) + 1) 1 17 = Some (s, k, n)" and len: "length (digits10 s) = k"
      and sp: "0 < s" and td: "toDouble False (of_nat s * 10 powi (n - int k)) = Finite (- q)"
      by blast
    from pos have nz: "- q \<noteq> 0" by simp
    from sh have "positiveToString (- q) = formatNumber s k n" by (simp add: positiveToString_def)
    with neg have "numberToString x = 0x2D # formatNumber s k n" by (simp add: x)
    with formatNumber_parse [OF sp len assms(4), of True n] toDouble_neg [OF td nz]
    show ?thesis by (simp add: x)
  qed
qed

lemma parse_number_isDouble: "parse_number cs = Some (x, r) \<Longrightarrow> isDouble x"
  unfolding parse_number_def Let_def
  by (auto split: list.splits if_splits option.splits intro!: isDouble_toDouble)

section \<open>Strings survive quoting and parsing\<close>

lemma hexValue_hexDigit: "h < 16 \<Longrightarrow> hexValue (hexDigit h) = Some h"
  unfolding hexValue_def hexDigit_def
  by (auto simp add: word_le_nat_alt word_less_nat_alt unat_word_ariths)

lemma nibble_less: "(w AND 0xF :: 16 word) < 16"
proof -
  have "w AND 0xF \<le> 0xF" by (rule word_and_le1)
  then show ?thesis by (simp add: word_le_nat_alt word_less_nat_alt)
qed

lemma top_nibble_less: "drop_bit 12 (c :: 16 word) < 16"
proof -
  have "unat c < 2 ^ 16" using unsigned_less [of c] by simp
  then have "unat c div 2 ^ 12 < 16" by simp
  then show ?thesis by (simp add: word_less_nat_alt drop_bit_eq_div unat_div)
qed

lemma nibbles_join:
  "push_bit 12 (drop_bit 12 c) OR push_bit 8 (drop_bit 8 c AND 0xF) OR
   push_bit 4 (drop_bit 4 c AND 0xF) OR (c AND 0xF) = (c :: 16 word)"
proof -
  have m: "(0xF :: 16 word) = mask 4" by (simp add: mask_eq_exp_minus_1)
  show ?thesis unfolding m
  proof (rule bit_word_eqI)
    fix n assume "n < LENGTH(16)"
    then have n16: "n < 16" by simp
    consider "n < 4" | "4 \<le> n" "n < 8" | "8 \<le> n" "n < 12" | "12 \<le> n" by linarith
    then show "bit (push_bit 12 (drop_bit 12 c) OR push_bit 8 (drop_bit 8 c AND mask 4) OR
                push_bit 4 (drop_bit 4 c AND mask 4) OR (c AND mask 4)) n = bit c n"
      using n16 by cases (auto simp add: bit_simps)
  qed
qed

lemma hex4_unicodeEscape:
  "hex4 (hexDigit (drop_bit 12 c)) (hexDigit (drop_bit 8 c AND 0xF))
        (hexDigit (drop_bit 4 c AND 0xF)) (hexDigit (c AND 0xF)) = Some c"
proof -
  have "hexValue (hexDigit (drop_bit 12 c)) = Some (drop_bit 12 c)"
    "hexValue (hexDigit (drop_bit 8 c AND 0xF)) = Some (drop_bit 8 c AND 0xF)"
    "hexValue (hexDigit (drop_bit 4 c AND 0xF)) = Some (drop_bit 4 c AND 0xF)"
    "hexValue (hexDigit (c AND 0xF)) = Some (c AND 0xF)"
    by (rule hexValue_hexDigit, rule top_nibble_less nibble_less)+
  then show ?thesis
    unfolding hex4_def by (simp only: prod.case option.case nibbles_join)
qed

lemma parse_chars_plain:
  "c \<noteq> 0x22 \<Longrightarrow> c \<noteq> 0x5C \<Longrightarrow> \<not> c < 0x20 \<Longrightarrow>
     parse_chars (c # tail) = cons_result c (parse_chars tail)"
  by simp

lemma parse_chars_unicodeEscape:
  "parse_chars (unicodeEscape c @ tail) = cons_result c (parse_chars tail)"
  by (simp add: unicodeEscape_def hex4_unicodeEscape)

lemma parse_chars_quoteUnit:
  "parse_chars (quoteUnit c @ tail) = cons_result c (parse_chars tail)"
proof -
  consider (bs) "c = 0x08" | (tab) "c = 0x09" | (lf) "c = 0x0A" | (ff) "c = 0x0C" | (cr) "c = 0x0D"
    | (quote) "c = 0x22" | (backslash) "c = 0x5C"
    | (esc) "c \<noteq> 0x08" "c \<noteq> 0x09" "c \<noteq> 0x0A" "c \<noteq> 0x0C" "c \<noteq> 0x0D" "c \<noteq> 0x22" "c \<noteq> 0x5C"
        "c < 0x20 \<or> isLeadSurrogate c \<or> isTrailSurrogate c"
    | (plain) "c \<noteq> 0x08" "c \<noteq> 0x09" "c \<noteq> 0x0A" "c \<noteq> 0x0C" "c \<noteq> 0x0D" "c \<noteq> 0x22" "c \<noteq> 0x5C"
        "\<not> (c < 0x20 \<or> isLeadSurrogate c \<or> isTrailSurrogate c)"
    by blast
  then show ?thesis
  proof cases
    case esc
    then have "quoteUnit c = unicodeEscape c" by (simp add: quoteUnit_def)
    then show ?thesis by (simp only: parse_chars_unicodeEscape)
  next
    case plain
    then have "quoteUnit c = [c]" by (simp add: quoteUnit_def)
    with plain show ?thesis by simp
  qed (simp_all add: quoteUnit_def escapeChar_def)
qed

lemma surrogate_plain:
  assumes "isLeadSurrogate c \<or> isTrailSurrogate c"
  shows "c \<noteq> 0x22" "c \<noteq> 0x5C" "\<not> c < 0x20"
  using assms by (auto simp add: isLeadSurrogate_def isTrailSurrogate_def word_le_nat_alt word_less_nat_alt)

lemma parse_chars_quoteChars:
  "parse_chars (quoteChars s @ 0x22 # rest) = Some (s, rest)"
proof (induction s rule: quoteChars.induct)
  case 1
  show ?case by simp
next
  case (2 c)
  have "parse_chars (quoteUnit c @ 0x22 # rest) = cons_result c (parse_chars (0x22 # rest))"
    by (rule parse_chars_quoteUnit)
  then show ?case by (simp add: cons_result_def)
next
  case (3 c d cs)
  show ?case
  proof (cases "isLeadSurrogate c \<and> isTrailSurrogate d")
    case True
    with 3 have ih: "parse_chars (quoteChars cs @ 0x22 # rest) = Some (cs, rest)" by simp
    from True have pc: "c \<noteq> 0x22" "c \<noteq> 0x5C" "\<not> c < 0x20"
      and pd: "d \<noteq> 0x22" "d \<noteq> 0x5C" "\<not> d < 0x20"
      using surrogate_plain by blast+
    have "parse_chars (c # d # quoteChars cs @ 0x22 # rest) =
            cons_result c (cons_result d (parse_chars (quoteChars cs @ 0x22 # rest)))"
      by (simp only: parse_chars_plain [OF pc] parse_chars_plain [OF pd])
    with True ih show ?thesis by (simp add: cons_result_def del: parse_chars.simps)
  next
    case False
    with 3 have ih: "parse_chars (quoteChars (d # cs) @ 0x22 # rest) = Some (d # cs, rest)" by simp
    have "parse_chars (quoteUnit c @ quoteChars (d # cs) @ 0x22 # rest) =
            cons_result c (parse_chars (quoteChars (d # cs) @ 0x22 # rest))"
      by (rule parse_chars_quoteUnit)
    with False ih show ?thesis by (auto simp add: cons_result_def simp del: parse_chars.simps)
  qed
qed

section \<open>The parser consumes its input, and fuel does not matter\<close>

lemma skip_ws_Cons: "skip_ws cs = c # r \<Longrightarrow> length r < length cs"
proof -
  assume a: "skip_ws cs = c # r"
  have "length (skip_ws cs) \<le> length cs" unfolding skip_ws_def by (rule length_dropWhile_le)
  with a show ?thesis by simp
qed

lemma cons_result_Some:
  "cons_result u res = Some (s, t) \<Longrightarrow> \<exists>s'. res = Some (s', t) \<and> s = u # s'"
  by (cases res) (auto simp add: cons_result_def)

lemma parse_chars_shorter: "parse_chars cs = Some (s, t) \<Longrightarrow> length t < length cs"
proof (induction cs arbitrary: s t rule: parse_chars.induct)
  case 1
  then show ?case by simp
next
  case (2 c cs)
  show ?case
  proof (cases "c = 0x22")
    case True
    with 2(4) show ?thesis by simp
  next
    case nq: False
    show ?thesis
    proof (cases "c = 0x5C")
      case bs: True
      show ?thesis
      proof (cases cs)
        case Nil
        with 2(4) nq bs show ?thesis by simp
      next
        case (Cons e r)
        show ?thesis
        proof (cases "e = 0x75")
          case u: True
          show ?thesis
          proof (cases r)
            case (Cons h3 r3)
            then obtain h2 h1 h0 r' u' where r: "r = h3 # h2 # h1 # h0 # r'"
              and h: "hex4 h3 h2 h1 h0 = Some u'"
              and c: "cons_result u' (parse_chars r') = Some (s, t)"
              using 2(4) nq bs u \<open>cs = e # r\<close>
              by (auto split: list.splits option.splits)
            from cons_result_Some [OF c] obtain s' where p: "parse_chars r' = Some (s', t)" by blast
            have "length t < length r'"
              by (rule 2(1) [OF nq bs \<open>cs = e # r\<close> u r refl refl refl h p])
            with r \<open>cs = e # r\<close> show ?thesis by simp
          next
            case Nil
            with 2(4) nq bs u \<open>cs = e # r\<close> show ?thesis by simp
          qed
        next
          case nu: False
          then obtain u' where h: "escapeChar e = Some u'"
            and c: "cons_result u' (parse_chars r) = Some (s, t)"
            using 2(4) nq bs \<open>cs = e # r\<close> by (auto split: option.splits)
          from cons_result_Some [OF c] obtain s' where "parse_chars r = Some (s', t)" by blast
          from 2(2) [OF nq bs \<open>cs = e # r\<close> nu h this] \<open>cs = e # r\<close>
          show ?thesis by simp
        qed
      qed
    next
      case nb: False
      show ?thesis
      proof (cases "c < 0x20")
        case True
        with 2(4) nq nb show ?thesis by simp
      next
        case False
        with 2(4) nq nb have c: "cons_result c (parse_chars cs) = Some (s, t)" by simp
        from cons_result_Some [OF c] obtain s' where "parse_chars cs = Some (s', t)" by blast
        from 2(3) [OF nq nb False this] show ?thesis by simp
      qed
    qed
  qed
qed

lemma scan_fraction_shorter: "scan_fraction r = Some (fp, t) \<Longrightarrow> length t \<le> length r"
  by (cases r) (auto simp add: scan_fraction_def le_SucI length_dropWhile_le split: if_splits)

lemma scan_exponent_shorter: "scan_exponent r = Some (ex, t) \<Longrightarrow> length t \<le> length r"
proof (cases r)
  case Nil
  assume "scan_exponent r = Some (ex, t)"
  with Nil show ?thesis by (simp add: scan_exponent_def)
next
  case (Cons c r')
  assume a: "scan_exponent r = Some (ex, t)"
  show ?thesis
  proof (cases "c = 0x65 \<or> c = 0x45")
    case False
    with a Cons show ?thesis by (simp add: scan_exponent_def)
  next
    case True
    define r'' where "r'' = (case r' of [] \<Rightarrow> [] | s # t' \<Rightarrow> if s = 0x2B then t' else if s = 0x2D then t' else r')"
    have l: "length r'' \<le> length r'" by (cases r') (simp_all add: r''_def)
    from a Cons True have "t = dropWhile isDigit r''"
      by (auto simp add: scan_exponent_def r''_def Let_def split: list.splits if_splits)
    then have "length t \<le> length r''" by (simp add: length_dropWhile_le)
    with l Cons show ?thesis by simp
  qed
qed

lemma parse_number_shorter:
  assumes "parse_number cs = Some (x, t)"
  shows "length t < length cs"
proof -
  define cs1 where "cs1 = (if cs \<noteq> [] \<and> hd cs = 0x2D then tl cs else cs)"
  have l1: "length cs1 \<le> length cs" by (simp add: cs1_def)
  from assms obtain c r where cr: "cs1 = c # r"
    unfolding parse_number_def Let_def cs1_def [symmetric] by (cases cs1) auto
  define r1 where "r1 = (if c = 0x30 then r else dropWhile isDigit cs1)"
  from assms cr have dc: "isDigit c"
    unfolding parse_number_def Let_def cs1_def [symmetric] by (auto split: if_splits)
  have "length (dropWhile isDigit cs1) < length cs1"
    using cr dc by (simp add: le_imp_less_Suc length_dropWhile_le)
  then have l2: "length r1 < length cs1" using cr by (simp add: r1_def)
  from assms cr dc obtain fp r2 ex where f: "scan_fraction r1 = Some (fp, r2)"
    and e: "scan_exponent r2 = Some (ex, t)"
    unfolding parse_number_def Let_def cs1_def [symmetric] r1_def
    by (auto split: option.splits)
  from scan_fraction_shorter [OF f] scan_exponent_shorter [OF e] l1 l2 show ?thesis by simp
qed

lemma map_parsed_Parsed:
  "map_parsed f p = Parsed v t \<longleftrightarrow> (\<exists>u. p = Parsed u t \<and> v = f u)"
  by (cases p) auto

lemma map_parsed_OutOfFuel [simp]: "map_parsed f p = OutOfFuel \<longleftrightarrow> p = OutOfFuel"
  by (cases p) auto

lemma drop_shorter: "0 < k \<Longrightarrow> length (drop k (c # r)) < length (c # r)"
  by simp

lemma parse_shorter:
  "(\<forall>cs v t. parse_value n cs = Parsed v t \<longrightarrow> length t < length cs) \<and>
   (\<forall>cs vs t. parse_elements n cs = Parsed vs t \<longrightarrow> length t < length cs) \<and>
   (\<forall>cs ms t. parse_members n cs = Parsed ms t \<longrightarrow> length t < length cs)"
proof (induction n)
  case 0
  show ?case by simp
next
  case (Suc n)
  then have ihv: "\<And>cs v t. parse_value n cs = Parsed v t \<Longrightarrow> length t < length cs"
    and ihe: "\<And>cs vs t. parse_elements n cs = Parsed vs t \<Longrightarrow> length t < length cs"
    and ihm: "\<And>cs ms t. parse_members n cs = Parsed ms t \<Longrightarrow> length t < length cs"
    by blast+
  have v: "length t < length cs" if a: "parse_value (Suc n) cs = Parsed v t" for cs v t
  proof (cases "skip_ws cs")
    case Nil
    with a show ?thesis by simp
  next
    case (Cons c r)
    note l = skip_ws_Cons [OF Cons]
    consider (arr) "c = 0x5B" | (obj) "c \<noteq> 0x5B" "c = 0x7B" | (str) "c \<noteq> 0x5B" "c \<noteq> 0x7B" "c = 0x22"
      | (other) "c \<noteq> 0x5B" "c \<noteq> 0x7B" "c \<noteq> 0x22" by blast
    then show ?thesis
    proof cases
      case arr
      show ?thesis
      proof (cases "skip_ws r")
        case Nil
        with a Cons arr show ?thesis by simp
      next
        case (Cons d r')
        note l' = skip_ws_Cons [OF Cons]
        show ?thesis
        proof (cases "d = 0x5D")
          case True
          with a \<open>skip_ws cs = c # r\<close> arr Cons have "t = r'" by simp
          with l l' show ?thesis by simp
        next
          case False
          with a \<open>skip_ws cs = c # r\<close> arr Cons obtain vs where "parse_elements n (d # r') = Parsed vs t"
            by (auto simp add: map_parsed_Parsed)
          from ihe [OF this] l l' show ?thesis by simp
        qed
      qed
    next
      case obj
      show ?thesis
      proof (cases "skip_ws r")
        case Nil
        with a Cons obj show ?thesis by simp
      next
        case (Cons d r')
        note l' = skip_ws_Cons [OF Cons]
        show ?thesis
        proof (cases "d = 0x7D")
          case True
          with a \<open>skip_ws cs = c # r\<close> obj Cons have "t = r'" by simp
          with l l' show ?thesis by simp
        next
          case False
          with a \<open>skip_ws cs = c # r\<close> obj Cons obtain ms where "parse_members n (d # r') = Parsed ms t"
            by (auto simp add: map_parsed_Parsed)
          from ihm [OF this] l l' show ?thesis by simp
        qed
      qed
    next
      case str
      with a Cons obtain s where "parse_chars r = Some (s, t)"
        by (auto split: option.splits)
      from parse_chars_shorter [OF this] l show ?thesis by simp
    next
      case other
      from a Cons other have
        "t = drop 4 (c # r) \<or> t = drop 5 (c # r) \<or> (\<exists>x. parse_number (c # r) = Some (x, t))"
        by (auto split: if_splits option.splits)
      then show ?thesis
      proof (elim disjE exE)
        fix x assume "parse_number (c # r) = Some (x, t)"
        from parse_number_shorter [OF this] l show ?thesis by simp
      qed (use l in simp_all)
    qed
  qed
  have e: "length t < length cs" if a: "parse_elements (Suc n) cs = Parsed vs t" for cs vs t
  proof -
    from a obtain v r where pv: "parse_value n cs = Parsed v r"
      by (auto split: parsed.splits)
    note l = ihv [OF pv]
    from a pv obtain d r' where sk: "skip_ws r = d # r'"
      by (cases "skip_ws r") auto
    note l' = skip_ws_Cons [OF sk]
    show ?thesis
    proof (cases "d = 0x2C")
      case True
      with a pv sk obtain vs' where "parse_elements n r' = Parsed vs' t"
        by (auto simp add: map_parsed_Parsed)
      from ihe [OF this] l l' show ?thesis by simp
    next
      case False
      with a pv sk have "t = r'" by (auto split: if_splits)
      with l l' show ?thesis by simp
    qed
  qed
  have m: "length t < length cs" if a: "parse_members (Suc n) cs = Parsed ms t" for cs ms t
  proof -
    from a obtain q r where sq: "skip_ws cs = q # r" by (cases "skip_ws cs") auto
    note l0 = skip_ws_Cons [OF sq]
    from a sq have q: "q = 0x22" by (auto split: if_splits)
    from a sq q obtain k r1 where pc: "parse_chars r = Some (k, r1)"
      by (cases "parse_chars r") auto
    note l1 = parse_chars_shorter [OF pc]
    from a sq q pc obtain col r2 where sc: "skip_ws r1 = col # r2"
      by (cases "skip_ws r1") auto
    note l2 = skip_ws_Cons [OF sc]
    from a sq q pc sc have col: "col = 0x3A" by (auto split: if_splits)
    from a sq q pc sc col obtain v r3 where pv: "parse_value n r2 = Parsed v r3"
      by (auto split: parsed.splits)
    note l3 = ihv [OF pv]
    from a sq q pc sc col pv obtain d r4 where sd: "skip_ws r3 = d # r4"
      by (cases "skip_ws r3") auto
    note l4 = skip_ws_Cons [OF sd]
    show ?thesis
    proof (cases "d = 0x2C")
      case True
      with a sq q pc sc col pv sd obtain ms' where "parse_members n r4 = Parsed ms' t"
        by (auto simp add: map_parsed_Parsed)
      from ihm [OF this] l0 l1 l2 l3 l4 show ?thesis by simp
    next
      case False
      with a sq q pc sc col pv sd have "t = r4" by (auto split: if_splits)
      with l0 l1 l2 l3 l4 show ?thesis by simp
    qed
  qed
  from v e m show ?case by blast
qed

lemmas parse_Suc = parse_value.simps(2) parse_elements.simps(2) parse_members.simps(2)

declare parse_value.simps(2) [simp del] parse_elements.simps(2) [simp del]
  parse_members.simps(2) [simp del]

lemma skip_ws_le: "length (skip_ws cs) \<le> length cs"
  unfolding skip_ws_def by (rule length_dropWhile_le)

lemma parse_fuel:
  "(\<forall>cs. 2 * length cs + 1 \<le> n \<longrightarrow> parse_value n cs \<noteq> OutOfFuel) \<and>
   (\<forall>cs. 2 * length cs + 2 \<le> n \<longrightarrow> parse_elements n cs \<noteq> OutOfFuel) \<and>
   (\<forall>cs. 2 * length cs + 2 \<le> n \<longrightarrow> parse_members n cs \<noteq> OutOfFuel)"
proof (induction n)
  case 0
  show ?case by simp
next
  case (Suc n)
  then have ihv: "\<And>cs. 2 * length cs + 1 \<le> n \<Longrightarrow> parse_value n cs \<noteq> OutOfFuel"
    and ihe: "\<And>cs. 2 * length cs + 2 \<le> n \<Longrightarrow> parse_elements n cs \<noteq> OutOfFuel"
    and ihm: "\<And>cs. 2 * length cs + 2 \<le> n \<Longrightarrow> parse_members n cs \<noteq> OutOfFuel"
    by blast+
  have v: "parse_value (Suc n) cs \<noteq> OutOfFuel" if a: "2 * length cs + 1 \<le> Suc n" for cs
  proof (cases "skip_ws cs")
    case Nil
    then show ?thesis by (simp add: parse_Suc)
  next
    case (Cons c r)
    note l = skip_ws_Cons [OF Cons]
    have sub: "2 * length (skip_ws r) + 2 \<le> n"
      using skip_ws_le [of r] l a by simp
    show ?thesis
    proof (cases "skip_ws r")
      case Nil
      with \<open>skip_ws cs = c # r\<close> show ?thesis
        by (simp add: parse_Suc split: option.splits)
    next
      case (Cons d r')
      from sub Cons have "parse_elements n (d # r') \<noteq> OutOfFuel" "parse_members n (d # r') \<noteq> OutOfFuel"
        using ihe [of "d # r'"] ihm [of "d # r'"] by simp_all
      with Cons \<open>skip_ws cs = c # r\<close> show ?thesis
        by (auto simp add: parse_Suc split: option.splits)
    qed
  qed
  have e: "parse_elements (Suc n) cs \<noteq> OutOfFuel" if a: "2 * length cs + 2 \<le> Suc n" for cs
  proof (cases "parse_value n cs")
    case (Parsed v r)
    from parse_shorter [of n] Parsed have l: "length r < length cs" by blast
    show ?thesis
    proof (cases "skip_ws r")
      case Nil
      with Parsed show ?thesis by (simp add: parse_Suc)
    next
      case (Cons d r')
      from skip_ws_Cons [OF Cons] l a have "2 * length r' + 2 \<le> n" by simp
      from ihe [OF this] Parsed Cons show ?thesis by (simp add: parse_Suc)
    qed
  next
    case SyntaxError
    then show ?thesis by (simp add: parse_Suc)
  next
    case OutOfFuel
    moreover from a have "2 * length cs + 1 \<le> n" by simp
    ultimately show ?thesis using ihv by blast
  qed
  have m: "parse_members (Suc n) cs \<noteq> OutOfFuel" if a: "2 * length cs + 2 \<le> Suc n" for cs
  proof (cases "skip_ws cs")
    case Nil
    then show ?thesis by (simp add: parse_Suc)
  next
    case (Cons q r)
    note l0 = skip_ws_Cons [OF Cons]
    show ?thesis
    proof (cases "parse_chars r")
      case None
      with Cons show ?thesis by (simp add: parse_Suc)
    next
      case (Some kr)
      obtain k r1 where kr: "kr = (k, r1)" by (cases kr)
      note l1 = parse_chars_shorter [OF Some [unfolded kr]]
      show ?thesis
      proof (cases "skip_ws r1")
        case Nil
        with Cons Some kr show ?thesis by (simp add: parse_Suc)
      next
        case sc: (Cons col r2)
        note l2 = skip_ws_Cons [OF sc]
        show ?thesis
        proof (cases "parse_value n r2")
          case (Parsed v r3)
          from parse_shorter [of n] Parsed have l3: "length r3 < length r2" by blast
          show ?thesis
          proof (cases "skip_ws r3")
            case Nil
            with Cons Some kr sc Parsed show ?thesis by (simp add: parse_Suc)
          next
            case sd: (Cons d r4)
            from skip_ws_Cons [OF sd] l0 l1 l2 l3 a have "2 * length r4 + 2 \<le> n" by simp
            from ihm [OF this] Cons Some kr sc Parsed sd show ?thesis by (simp add: parse_Suc)
          qed
        next
          case SyntaxError
          with Cons Some kr sc show ?thesis by (simp add: parse_Suc)
        next
          case OutOfFuel
          moreover from l0 l1 l2 a have "2 * length r2 + 1 \<le> n" by simp
          ultimately show ?thesis using ihv by blast
        qed
      qed
    qed
  qed
  from v e m show ?case by blast
qed

lemma parse_mono_step:
  "(\<forall>cs. parse_value n cs \<noteq> OutOfFuel \<longrightarrow> parse_value (Suc n) cs = parse_value n cs) \<and>
   (\<forall>cs. parse_elements n cs \<noteq> OutOfFuel \<longrightarrow> parse_elements (Suc n) cs = parse_elements n cs) \<and>
   (\<forall>cs. parse_members n cs \<noteq> OutOfFuel \<longrightarrow> parse_members (Suc n) cs = parse_members n cs)"
proof (induction n)
  case 0
  show ?case by simp
next
  case (Suc n)
  then have ihv: "\<And>cs. parse_value n cs \<noteq> OutOfFuel \<Longrightarrow> parse_value (Suc n) cs = parse_value n cs"
    and ihe: "\<And>cs. parse_elements n cs \<noteq> OutOfFuel \<Longrightarrow> parse_elements (Suc n) cs = parse_elements n cs"
    and ihm: "\<And>cs. parse_members n cs \<noteq> OutOfFuel \<Longrightarrow> parse_members (Suc n) cs = parse_members n cs"
    by blast+
  have v: "parse_value (Suc (Suc n)) cs = parse_value (Suc n) cs"
    if a: "parse_value (Suc n) cs \<noteq> OutOfFuel" for cs
  proof (cases "skip_ws cs")
    case Nil
    then show ?thesis by (simp add: parse_Suc)
  next
    case (Cons c r)
    show ?thesis
    proof (cases "skip_ws r")
      case Nil
      with \<open>skip_ws cs = c # r\<close> show ?thesis by (simp add: parse_Suc)
    next
      case sr: (Cons d r')
      consider (arr) "c = 0x5B" "d \<noteq> 0x5D" | (obj) "c \<noteq> 0x5B" "c = 0x7B" "d \<noteq> 0x7D"
        | (other) "(c = 0x5B \<and> d = 0x5D) \<or> (c \<noteq> 0x5B \<and> c = 0x7B \<and> d = 0x7D) \<or> (c \<noteq> 0x5B \<and> c \<noteq> 0x7B)"
        by blast
      then show ?thesis
      proof cases
        case arr
        with a Cons sr have "parse_elements n (d # r') \<noteq> OutOfFuel"
          by (simp add: parse_Suc [of n])
        from ihe [OF this] arr Cons sr show ?thesis
          by (simp add: parse_Suc [of n] parse_Suc [of "Suc n"])
      next
        case obj
        with a Cons sr have "parse_members n (d # r') \<noteq> OutOfFuel"
          by (simp add: parse_Suc [of n])
        from ihm [OF this] obj Cons sr show ?thesis
          by (simp add: parse_Suc [of n] parse_Suc [of "Suc n"])
      next
        case other
        with Cons sr show ?thesis
          by (auto simp add: parse_Suc [of n] parse_Suc [of "Suc n"])
      qed
    qed
  qed
  have e: "parse_elements (Suc (Suc n)) cs = parse_elements (Suc n) cs"
    if a: "parse_elements (Suc n) cs \<noteq> OutOfFuel" for cs
  proof -
    from a have nv: "parse_value n cs \<noteq> OutOfFuel"
      by (auto simp add: parse_Suc [of n])
    note ev = ihv [OF nv]
    show ?thesis
    proof (cases "parse_value n cs")
      case (Parsed w r)
      show ?thesis
      proof (cases "skip_ws r")
        case Nil
        with Parsed ev show ?thesis by (simp add: parse_Suc(2) [of n] parse_Suc(2) [of "Suc n"])
      next
        case (Cons d r')
        show ?thesis
        proof (cases "d = 0x2C")
          case True
          with a Parsed Cons have "parse_elements n r' \<noteq> OutOfFuel"
            by (simp add: parse_Suc(2) [of n])
          from ihe [OF this] True Parsed Cons ev show ?thesis
            by (simp add: parse_Suc(2) [of n] parse_Suc(2) [of "Suc n"])
        next
          case False
          with Parsed Cons ev show ?thesis
            by (simp add: parse_Suc(2) [of n] parse_Suc(2) [of "Suc n"])
        qed
      qed
    next
      case SyntaxError
      with ev show ?thesis by (simp add: parse_Suc(2) [of n] parse_Suc(2) [of "Suc n"])
    next
      case OutOfFuel
      with nv show ?thesis by simp
    qed
  qed
  have m: "parse_members (Suc (Suc n)) cs = parse_members (Suc n) cs"
    if a: "parse_members (Suc n) cs \<noteq> OutOfFuel" for cs
  proof (cases "skip_ws cs")
    case Nil
    then show ?thesis by (simp add: parse_Suc(3) [of n] parse_Suc(3) [of "Suc n"])
  next
    case (Cons q r)
    show ?thesis
    proof (cases "parse_chars r")
      case None
      with Cons show ?thesis by (simp add: parse_Suc(3) [of n] parse_Suc(3) [of "Suc n"])
    next
      case (Some kr)
      obtain k r1 where kr: "kr = (k, r1)" by (cases kr)
      show ?thesis
      proof (cases "skip_ws r1")
        case Nil
        with Cons Some kr show ?thesis
          by (simp add: parse_Suc(3) [of n] parse_Suc(3) [of "Suc n"])
      next
        case sc: (Cons col r2)
        show ?thesis
        proof (cases "q = 0x22 \<and> col = 0x3A")
          case False
          with Cons Some kr sc show ?thesis
            by (auto simp add: parse_Suc(3) [of n] parse_Suc(3) [of "Suc n"])
        next
          case True
          with a Cons Some kr sc have nv: "parse_value n r2 \<noteq> OutOfFuel"
            by (auto simp add: parse_Suc(3) [of n])
          note ev = ihv [OF nv]
          show ?thesis
          proof (cases "parse_value n r2")
            case (Parsed w r3)
            show ?thesis
            proof (cases "skip_ws r3")
              case Nil
              with True Cons Some kr sc Parsed ev show ?thesis
                by (simp add: parse_Suc(3) [of n] parse_Suc(3) [of "Suc n"])
            next
              case sd: (Cons d r4)
              show ?thesis
              proof (cases "d = 0x2C")
                case comma: True
                with a True Cons Some kr sc Parsed sd have "parse_members n r4 \<noteq> OutOfFuel"
                  by (simp add: parse_Suc(3) [of n])
                from ihm [OF this] comma True Cons Some kr sc Parsed sd ev show ?thesis
                  by (simp add: parse_Suc(3) [of n] parse_Suc(3) [of "Suc n"])
              next
                case False
                with True Cons Some kr sc Parsed sd ev show ?thesis
                  by (simp add: parse_Suc(3) [of n] parse_Suc(3) [of "Suc n"])
              qed
            qed
          next
            case SyntaxError
            with True Cons Some kr sc ev show ?thesis
              by (simp add: parse_Suc(3) [of n] parse_Suc(3) [of "Suc n"])
          next
            case OutOfFuel
            with nv show ?thesis by simp
          qed
        qed
      qed
    qed
  qed
  from v e m show ?case by blast
qed

lemma parse_value_mono:
  "parse_value n cs \<noteq> OutOfFuel \<Longrightarrow> n \<le> m \<Longrightarrow> parse_value m cs = parse_value n cs"
proof (induction m)
  case 0
  then show ?case by simp
next
  case (Suc m)
  show ?case
  proof (cases "n = Suc m")
    case True
    then show ?thesis by simp
  next
    case False
    with Suc.prems have "n \<le> m" by simp
    with Suc have eq: "parse_value m cs = parse_value n cs" by simp
    with Suc.prems(1) have "parse_value m cs \<noteq> OutOfFuel" by simp
    with parse_mono_step [of m] eq show ?thesis by simp
  qed
qed

section \<open>Parsing a saved collection\<close>

lemma skip_ws_nonws: "\<not> isJSONWhiteSpace c \<Longrightarrow> skip_ws (c # r) = c # r"
  by (simp add: skip_ws_def)

lemma skip_ws_punct [simp]:
  "skip_ws (0x22 # r) = 0x22 # r" "skip_ws (0x3A # r) = 0x3A # r" "skip_ws (0x2C # r) = 0x2C # r"
  "skip_ws (0x7D # r) = 0x7D # r" "skip_ws (0x5D # r) = 0x5D # r" "skip_ws (0x7B # r) = 0x7B # r"
  "skip_ws (0x5B # r) = 0x5B # r"
  by (simp_all add: skip_ws_def isJSONWhiteSpace_def)

lemma skip_ws_Nil [simp]: "skip_ws [] = []"
  by (simp add: skip_ws_def)

lemma parse_value_string:
  "parse_value (Suc n) (QuoteJSONString s @ rest) = Parsed (JString s) rest"
  by (simp add: parse_Suc QuoteJSONString_def parse_chars_quoteChars)

lemma parse_value_bool:
  "parse_value (Suc n) ((if b then js ''true'' else js ''false'') @ rest) = Parsed (JBool b) rest"
  by (simp add: parse_Suc js_def skip_ws_def isJSONWhiteSpace_def)

lemma parse_value_null:
  "parse_value (Suc n) (js ''null'' @ rest) = Parsed JNull rest"
  by (simp add: parse_Suc js_def skip_ws_def isJSONWhiteSpace_def)

lemma parse_number_hd:
  assumes "parse_number cs = Some (x, t)"
  shows "\<exists>c r. cs = c # r \<and> (c = 0x2D \<or> isDigit c)"
proof (cases cs)
  case Nil
  with assms show ?thesis by (simp add: parse_number_def)
next
  case (Cons c r)
  show ?thesis
  proof (cases "c = 0x2D")
    case True
    with Cons show ?thesis by simp
  next
    case False
    with assms Cons have "isDigit c"
      by (auto simp add: parse_number_def Let_def split: if_splits)
    with Cons show ?thesis by simp
  qed
qed

lemma parse_value_number:
  assumes "parse_number cs = Some (x, t)"
  shows "parse_value (Suc n) cs = Parsed (JNumber x) t"
proof -
  from parse_number_hd [OF assms] obtain c r where cs: "cs = c # r" and c: "c = 0x2D \<or> isDigit c"
    by blast
  from c have nws: "\<not> isJSONWhiteSpace c"
    by (auto simp add: isJSONWhiteSpace_def isDigit_def)
  from c have ne: "c \<noteq> 0x5B" "c \<noteq> 0x7B" "c \<noteq> 0x22" "c \<noteq> 0x74" "c \<noteq> 0x66" "c \<noteq> 0x6E"
    by (auto simp add: isDigit_def)
  from ne have lit: "take 4 (c # r) \<noteq> js ''true''" "take 5 (c # r) \<noteq> js ''false''"
    "take 4 (c # r) \<noteq> js ''null''"
    by (auto simp add: js_def)
  show ?thesis
    unfolding cs parse_Suc skip_ws_nonws [OF nws]
    using ne lit assms [unfolded cs] by simp
qed

lemma parse_members_comma:
  assumes "parse_value n (vs @ 0x2C # tail) = Parsed v (0x2C # tail)"
  shows "parse_members (Suc n) (QuoteJSONString k @ 0x3A # vs @ 0x2C # tail) =
           map_parsed ((#) (k, v)) (parse_members n tail)"
  using assms by (simp add: parse_Suc QuoteJSONString_def parse_chars_quoteChars)

lemma parse_members_end:
  assumes "parse_value n (vs @ 0x7D # rest) = Parsed v (0x7D # rest)"
  shows "parse_members (Suc n) (QuoteJSONString k @ 0x3A # vs @ 0x7D # rest) = Parsed [(k, v)] rest"
  using assms by (simp add: parse_Suc QuoteJSONString_def parse_chars_quoteChars)

lemma makeObject_todo:
  "makeObject [(js ''id'', a), (js ''text'', b), (js ''completed'', c), (js ''createdAt'', d)] =
     JObject [(js ''id'', a), (js ''text'', b), (js ''completed'', c), (js ''createdAt'', d)]"
  by (simp add: makeObject_def ownProperties_def isArrayIndex_def isDigit_def js_def)

text \<open>The text of a task object whose last member is written as \<open>vs\<close>.\<close>

lemma parse_todo_object:
  assumes "\<And>m. parse_value (Suc m) (vs @ 0x7D # rest) = Parsed w (0x7D # rest)"
  shows "parse_value (Suc (Suc (Suc (Suc (Suc (Suc n))))))
           (0x7B # QuoteJSONString (js ''id'') @ 0x3A # QuoteJSONString i @ 0x2C #
              QuoteJSONString (js ''text'') @ 0x3A # QuoteJSONString x @ 0x2C #
              QuoteJSONString (js ''completed'') @ 0x3A # (if b then js ''true'' else js ''false'') @ 0x2C #
              QuoteJSONString (js ''createdAt'') @ 0x3A # vs @ 0x7D # rest) =
         Parsed (JObject [(js ''id'', JString i), (js ''text'', JString x),
                          (js ''completed'', JBool b), (js ''createdAt'', w)]) rest"
proof -
  have m4: "parse_members (Suc (Suc n)) (QuoteJSONString (js ''createdAt'') @ 0x3A # vs @ 0x7D # rest) =
      Parsed [(js ''createdAt'', w)] rest"
    by (rule parse_members_end) (rule assms)
  have m3: "parse_members (Suc (Suc (Suc n)))
      (QuoteJSONString (js ''completed'') @ 0x3A # (if b then js ''true'' else js ''false'') @ 0x2C #
       QuoteJSONString (js ''createdAt'') @ 0x3A # vs @ 0x7D # rest) =
      Parsed [(js ''completed'', JBool b), (js ''createdAt'', w)] rest"
    by (subst parse_members_comma [where v = "JBool b"]) (simp_all only: parse_value_bool m4 parsed.map)
  have m2: "parse_members (Suc (Suc (Suc (Suc n))))
      (QuoteJSONString (js ''text'') @ 0x3A # QuoteJSONString x @ 0x2C #
       QuoteJSONString (js ''completed'') @ 0x3A # (if b then js ''true'' else js ''false'') @ 0x2C #
       QuoteJSONString (js ''createdAt'') @ 0x3A # vs @ 0x7D # rest) =
      Parsed [(js ''text'', JString x), (js ''completed'', JBool b), (js ''createdAt'', w)] rest"
    by (subst parse_members_comma [where v = "JString x"]) (simp_all only: parse_value_string m3 parsed.map)
  have m1: "parse_members (Suc (Suc (Suc (Suc (Suc n)))))
      (QuoteJSONString (js ''id'') @ 0x3A # QuoteJSONString i @ 0x2C #
       QuoteJSONString (js ''text'') @ 0x3A # QuoteJSONString x @ 0x2C #
       QuoteJSONString (js ''completed'') @ 0x3A # (if b then js ''true'' else js ''false'') @ 0x2C #
       QuoteJSONString (js ''createdAt'') @ 0x3A # vs @ 0x7D # rest) =
      Parsed [(js ''id'', JString i), (js ''text'', JString x), (js ''completed'', JBool b),
              (js ''createdAt'', w)] rest"
    by (subst parse_members_comma [where v = "JString i"]) (simp_all only: parse_value_string m2 parsed.map)
  have q: "QuoteJSONString (js ''id'') @ t = 0x22 # tl (QuoteJSONString (js ''id'') @ t)" for t
    by (simp add: QuoteJSONString_def)
  show ?thesis
    apply (subst parse_Suc(1))
    apply (simp only: skip_ws_punct list.case)
    apply (subst (1 2) q)
    apply (simp only: skip_ws_punct list.case)
    apply (simp only: q [symmetric] m1 parsed.map makeObject_todo)
    apply simp
    done
qed

lemma parse_value_fuel_irrelevant:
  assumes "parse_value n s \<noteq> OutOfFuel"
  shows "parse_value (2 * length s + 1) s = parse_value n s"
proof -
  from parse_fuel [of "2 * length s + 1"] have nf: "parse_value (2 * length s + 1) s \<noteq> OutOfFuel"
    by simp
  show ?thesis
  proof (cases "n \<le> 2 * length s + 1")
    case True
    from parse_value_mono [OF assms True] show ?thesis .
  next
    case False
    then have "2 * length s + 1 \<le> n" by simp
    from parse_value_mono [OF nf this] show ?thesis by simp
  qed
qed

lemma JSON_parse_Parsed:
  "parse_value n s = Parsed v r \<Longrightarrow> skip_ws r = [] \<Longrightarrow> JSON_parse s = Some v"
  using parse_value_fuel_irrelevant [of n s] by (simp add: JSON_parse_def)

lemma JSON_parse_SyntaxError:
  "parse_value n s = SyntaxError \<Longrightarrow> JSON_parse s = None"
  using parse_value_fuel_irrelevant [of n s] by (simp add: JSON_parse_def)

lemma isSafeInteger_isFinite: "isSafeInteger x \<Longrightarrow> isFinite x"
  by (cases x) simp_all

lemma serialize_todo:
  "JSON_serialize (todoValue t) @ rest =
     0x7B # QuoteJSONString (js ''id'') @ 0x3A # QuoteJSONString (todo_id t) @ 0x2C #
       QuoteJSONString (js ''text'') @ 0x3A # QuoteJSONString (todo_text t) @ 0x2C #
       QuoteJSONString (js ''completed'') @ 0x3A #
         (if completed t then js ''true'' else js ''false'') @ 0x2C #
       QuoteJSONString (js ''createdAt'') @ 0x3A #
         (if isFinite (createdAt t) then numberToString (createdAt t) else js ''null'') @
       0x7D # rest"
  by (simp add: todoValue_def)

lemma ends_number_brace: "ends_number (0x7D # rest)"
  by (simp add: ends_number_def isDigit_def)

lemma six: "6 \<le> n \<Longrightarrow> \<exists>m. n = Suc (Suc (Suc (Suc (Suc (Suc m)))))"
  by (rule exI [of _ "n - 6"]) simp

lemma todo_roundtrip:
  assumes "isDouble (createdAt t)" "isFinite (createdAt t)" "createdAt t \<noteq> NegZero" "6 \<le> n"
  shows "parse_value n (JSON_serialize (todoValue t) @ rest) = Parsed (todoValue t) rest"
proof -
  from six [OF assms(4)] obtain m where n: "n = Suc (Suc (Suc (Suc (Suc (Suc m)))))" ..
  have num: "parse_value (Suc k) (numberToString (createdAt t) @ 0x7D # rest) =
      Parsed (JNumber (createdAt t)) (0x7D # rest)" for k
    by (rule parse_value_number) (rule numberToString_parse [OF assms(1,2,3) ends_number_brace])
  show ?thesis
    unfolding n serialize_todo
    by (simp only: assms(2) if_True parse_todo_object [OF num])
      (simp add: todoValue_def)
qed

lemma todo_nonfinite:
  assumes "\<not> isFinite (createdAt t)" "6 \<le> n"
  shows "parse_value n (JSON_serialize (todoValue t) @ rest) =
           Parsed (JObject [(js ''id'', JString (todo_id t)), (js ''text'', JString (todo_text t)),
                            (js ''completed'', JBool (completed t)), (js ''createdAt'', JNull)]) rest"
proof -
  from six [OF assms(2)] obtain m where n: "n = Suc (Suc (Suc (Suc (Suc (Suc m)))))" ..
  have num: "parse_value (Suc k) (js ''null'' @ 0x7D # rest) = Parsed JNull (0x7D # rest)" for k
    by (rule parse_value_null)
  show ?thesis
    unfolding n serialize_todo
    by (simp only: assms(1) if_False parse_todo_object [OF num])
qed

lemma todo_negzero:
  assumes "createdAt t = NegZero" "6 \<le> n"
  shows "parse_value n (JSON_serialize (todoValue t) @ rest) =
           Parsed (JObject [(js ''id'', JString (todo_id t)), (js ''text'', JString (todo_text t)),
                            (js ''completed'', JBool (completed t)),
                            (js ''createdAt'', JNumber (Finite 0))]) rest"
proof -
  from six [OF assms(2)] obtain m where n: "n = Suc (Suc (Suc (Suc (Suc (Suc m)))))" ..
  have "parse_number (0x30 # 0x7D # rest) = Some (Finite 0, 0x7D # rest)"
    by (rule parse_number_zero [OF ends_number_brace])
  then have num: "parse_value (Suc k) (js ''0'' @ 0x7D # rest) = Parsed (JNumber (Finite 0)) (0x7D # rest)" for k
    by (intro parse_value_number) (simp add: js_def)
  show ?thesis
    unfolding n serialize_todo
    by (simp only: assms(1) isFinite.simps if_True numberToString.simps parse_todo_object [OF num])
qed

lemma todo_reloaded:
  assumes "isDouble (createdAt t)" "6 \<le> n"
  shows "parse_value n (JSON_serialize (todoValue t) @ rest) =
           Parsed (JObject [(js ''id'', JString (todo_id t)), (js ''text'', JString (todo_text t)),
                            (js ''completed'', JBool (completed t)),
                            (js ''createdAt'',
                               if isFinite (createdAt t)
                               then JNumber (if createdAt t = NegZero then Finite 0 else createdAt t)
                               else JNull)]) rest"
proof (cases "isFinite (createdAt t)")
  case False
  with todo_nonfinite [OF False assms(2)] show ?thesis by simp
next
  case True
  show ?thesis
  proof (cases "createdAt t = NegZero")
    case z: True
    with todo_negzero [OF z assms(2)] True show ?thesis by simp
  next
    case nz: False
    with todo_roundtrip [OF assms(1) True nz assms(2)] True show ?thesis
      by (simp add: todoValue_def)
  qed
qed

lemma serialize_todo_hd: "\<exists>r. JSON_serialize (todoValue t) = 0x7B # r"
  by (simp add: todoValue_def)

lemma parse_elements_todos:
  assumes "\<And>t n rest. t \<in> set ts \<Longrightarrow> 6 \<le> n \<Longrightarrow>
             parse_value n (JSON_serialize (todoValue t) @ rest) = Parsed (rl t) rest"
    and "ts \<noteq> []"
  shows "parse_elements (length ts + 6 + n) (serializeElements (map todoValue ts) @ 0x5D # rest) =
           Parsed (map rl ts) rest"
  using assms
proof (induction ts arbitrary: n)
  case Nil
  then show ?case by simp
next
  case (Cons t ts)
  have f: "length (t # ts) + 6 + n = Suc (length ts + 6 + n)" by simp
  show ?case
  proof (cases ts)
    case Nil
    have "parse_value (length ts + 6 + n) (JSON_serialize (todoValue t) @ 0x5D # rest) =
        Parsed (rl t) (0x5D # rest)"
      by (rule Cons.prems(1)) simp_all
    moreover have "serializeElements (map todoValue (t # ts)) @ 0x5D # rest =
        JSON_serialize (todoValue t) @ 0x5D # rest"
      using Nil by simp
    ultimately show ?thesis unfolding f
      by (subst parse_Suc(2)) (simp add: Nil)
  next
    case (Cons u us)
    have pv: "parse_value (length ts + 6 + n)
        (JSON_serialize (todoValue t) @ 0x2C # serializeElements (map todoValue ts) @ 0x5D # rest) =
        Parsed (rl t) (0x2C # serializeElements (map todoValue ts) @ 0x5D # rest)"
      by (rule Cons.prems(1)) simp_all
    have ih: "parse_elements (length ts + 6 + n) (serializeElements (map todoValue ts) @ 0x5D # rest) =
        Parsed (map rl ts) rest"
      by (rule Cons.IH) (use Cons.prems(1) Cons in auto)
    have s: "serializeElements (map todoValue (t # ts)) @ 0x5D # rest =
        JSON_serialize (todoValue t) @ 0x2C # serializeElements (map todoValue ts) @ 0x5D # rest"
      using Cons by simp
    show ?thesis unfolding f s
      by (subst parse_Suc(2)) (simp add: pv ih)
  qed
qed

lemma parse_todos:
  assumes "\<And>t n rest. t \<in> set ts \<Longrightarrow> 6 \<le> n \<Longrightarrow>
             parse_value n (JSON_serialize (todoValue t) @ rest) = Parsed (rl t) rest"
  shows "JSON_parse (JSON_stringify (todosValue ts)) = Some (JArray (map rl ts))"
proof (cases ts)
  case Nil
  have "parse_value (Suc 0) [0x5B, 0x5D] = Parsed (JArray []) []" by (simp add: parse_Suc)
  from JSON_parse_Parsed [OF this] Nil show ?thesis
    by (simp add: JSON_stringify_def todosValue_def)
next
  case (Cons u us)
  then have ne: "ts \<noteq> []" by simp
  from serialize_todo_hd [of u] obtain r where r: "JSON_serialize (todoValue u) = 0x7B # r" ..
  have hd: "\<exists>r'. serializeElements (map todoValue ts) @ [0x5D] = 0x7B # r'"
    using Cons r by (cases us) simp_all
  then obtain r' where r': "serializeElements (map todoValue ts) @ [0x5D] = 0x7B # r'" ..
  from parse_elements_todos [OF assms ne, of 0 "[]"]
  have pe: "parse_elements (length ts + 6) (0x7B # r') = Parsed (map rl ts) []"
    by (simp add: r')
  have "parse_value (Suc (length ts + 6)) (JSON_serialize (todosValue ts)) = Parsed (JArray (map rl ts)) []"
    by (subst parse_Suc(1)) (simp add: todosValue_def r' pe)
  from JSON_parse_Parsed [OF this] show ?thesis by (simp add: JSON_stringify_def)
qed

lemma stringify_todos_nonempty: "JSON_stringify (todosValue ts) \<noteq> []"
  by (simp add: JSON_stringify_def todosValue_def)

lemma todoValue_inj: "todoValue t = todoValue t' \<Longrightarrow> t = t'"
  by (cases t, cases t') (simp add: todoValue_def)

lemma todosValue_inj: "todosValue ts = todosValue ts' \<Longrightarrow> ts = ts'"
proof -
  have "inj todoValue" by (rule injI) (rule todoValue_inj)
  then show "todosValue ts = todosValue ts' \<Longrightarrow> ts = ts'"
    by (simp add: todosValue_def inj_map_eq_map)
qed

section \<open>Saving and loading\<close>

text \<open>
  What \<open>load\<close> returns after \<open>save\<close>, for every collection: each task comes back with
  its id, text and flag; a finite timestamp comes back as it is, except that \<open>-0\<close> comes
  back as \<open>0\<close>; a timestamp that is not finite comes back as \<open>null\<close>.
\<close>

lemma load_save_reloaded:
  assumes "\<forall>t \<in> set ts. isDouble (createdAt t)"
  shows "load (save (todosValue ts) ls) =
           JArray (map (\<lambda>t. JObject [(js ''id'', JString (todo_id t)), (js ''text'', JString (todo_text t)),
                            (js ''completed'', JBool (completed t)),
                            (js ''createdAt'',
                               if isFinite (createdAt t)
                               then JNumber (if createdAt t = NegZero then Finite 0 else createdAt t)
                               else JNull)]) ts)"
proof -
  have "JSON_parse (JSON_stringify (todosValue ts)) =
      Some (JArray (map (\<lambda>t. JObject [(js ''id'', JString (todo_id t)), (js ''text'', JString (todo_text t)),
                            (js ''completed'', JBool (completed t)),
                            (js ''createdAt'',
                               if isFinite (createdAt t)
                               then JNumber (if createdAt t = NegZero then Finite 0 else createdAt t)
                               else JNull)]) ts))"
    by (rule parse_todos) (use assms todo_reloaded in blast)
  then show ?thesis
    using stringify_todos_nonempty [of ts] by (simp add: load_def save_def)
qed

text \<open>A stored text whose timestamp reads \<open>1e999\<close> hydrates an infinite timestamp.\<close>

lemma parse_stored_task:
  assumes "\<And>m. parse_value (Suc m) (vs @ 0x7D # [0x5D]) = Parsed w (0x7D # [0x5D])"
  shows "JSON_parse
           (0x5B # 0x7B # QuoteJSONString (js ''id'') @ 0x3A # QuoteJSONString i @ 0x2C #
              QuoteJSONString (js ''text'') @ 0x3A # QuoteJSONString x @ 0x2C #
              QuoteJSONString (js ''completed'') @ 0x3A # (if b then js ''true'' else js ''false'') @ 0x2C #
              QuoteJSONString (js ''createdAt'') @ 0x3A # vs @ 0x7D # [0x5D]) =
         Some (JArray [JObject [(js ''id'', JString i), (js ''text'', JString x),
                                (js ''completed'', JBool b), (js ''createdAt'', w)]])"
proof -
  note obj = parse_todo_object [of vs "[0x5D]" w 0 i x b, OF assms]
  have el: "parse_elements (Suc (Suc (Suc (Suc (Suc (Suc (Suc 0)))))))
           (0x7B # QuoteJSONString (js ''id'') @ 0x3A # QuoteJSONString i @ 0x2C #
              QuoteJSONString (js ''text'') @ 0x3A # QuoteJSONString x @ 0x2C #
              QuoteJSONString (js ''completed'') @ 0x3A # (if b then js ''true'' else js ''false'') @ 0x2C #
              QuoteJSONString (js ''createdAt'') @ 0x3A # vs @ 0x7D # [0x5D]) =
         Parsed [JObject [(js ''id'', JString i), (js ''text'', JString x),
                                (js ''completed'', JBool b), (js ''createdAt'', w)]] []"
    by (subst parse_Suc(2)) (simp only: obj parsed.case skip_ws_punct list.case, simp)
  have "parse_value (Suc (Suc (Suc (Suc (Suc (Suc (Suc (Suc 0))))))))
           (0x5B # 0x7B # QuoteJSONString (js ''id'') @ 0x3A # QuoteJSONString i @ 0x2C #
              QuoteJSONString (js ''text'') @ 0x3A # QuoteJSONString x @ 0x2C #
              QuoteJSONString (js ''completed'') @ 0x3A # (if b then js ''true'' else js ''false'') @ 0x2C #
              QuoteJSONString (js ''createdAt'') @ 0x3A # vs @ 0x7D # [0x5D]) =
         Parsed (JArray [JObject [(js ''id'', JString i), (js ''text'', JString x),
                                (js ''completed'', JBool b), (js ''createdAt'', w)]]) []"
    by (subst parse_Suc(1)) (simp only: skip_ws_punct list.case el parsed.map, simp)
  from JSON_parse_Parsed [OF this] show ?thesis by simp
qed

lemma parse_number_1e999:
  "parse_number (js ''1e999'' @ 0x7D # rest) = Some (PosInfinity, 0x7D # rest)"
proof -
  have sf: "scan_fraction (js ''e999'' @ 0x7D # rest) = Some ([], js ''e999'' @ 0x7D # rest)"
    by (rule scan_fraction_none) (simp add: js_def)
  have se: "scan_exponent (js ''e999'' @ 0x7D # rest) = Some (999, 0x7D # rest)"
    by (simp add: scan_exponent_def js_def isDigit_def decimalValue_def)
  have st: "stops_digits (js ''e999'' @ 0x7D # rest)"
    by (simp add: stops_digits_def js_def isDigit_def)
  have p: "parse_number ((if False then [0x2D] else []) @ [0x31] @ js ''e999'' @ 0x7D # rest) =
      Some (toDouble False (of_nat (decimalValue ([0x31] @ [])) *
                            10 powi (999 - int (length ([]::jsstring)))), 0x7D # rest)"
    by (rule parse_number_nonzero [OF _ _ _ st sf se]) (simp_all add: isDigit_def)
  have d: "decimalValue ([0x31] @ []) = 1" by (simp add: decimalValue_def)
  have e: "(999::int) - int (length ([]::jsstring)) = int 999" by simp
  have "toDouble False (of_nat 1 * 10 powi int 999) = (if False then NegInfinity else PosInfinity)"
    by (rule toDouble_huge) simp_all
  then have h: "toDouble False (of_nat 1 * 10 powi int 999) = PosInfinity" by (simp only: if_False)
  have t: "js ''1e999'' @ 0x7D # rest = (if False then [0x2D] else []) @ [0x31] @ js ''e999'' @ 0x7D # rest"
    by (simp add: js_def)
  show ?thesis unfolding t p d e h by (rule refl)
qed

lemma stored_infinity:
  \<open>load (Map.empty(STORAGE_KEY \<mapsto>
      js ''[{"id":"a","text":"milk","completed":false,"createdAt":1e999}]'')) =
    todosValue [task_inf]\<close>
proof -
  have t: \<open>js ''[{"id":"a","text":"milk","completed":false,"createdAt":1e999}]'' =
      0x5B # 0x7B # QuoteJSONString (js ''id'') @ 0x3A # QuoteJSONString (js ''a'') @ 0x2C #
        QuoteJSONString (js ''text'') @ 0x3A # QuoteJSONString (js ''milk'') @ 0x2C #
        QuoteJSONString (js ''completed'') @ 0x3A # (if False then js ''true'' else js ''false'') @ 0x2C #
        QuoteJSONString (js ''createdAt'') @ 0x3A # js ''1e999'' @ 0x7D # [0x5D]\<close>
    by (simp add: js_def QuoteJSONString_def quoteUnit_def isLeadSurrogate_def isTrailSurrogate_def)
  have ne: \<open>js ''[{"id":"a","text":"milk","completed":false,"createdAt":1e999}]'' \<noteq> []\<close>
    by (simp add: js_def)
  have "JSON_parse (js ''[{\"id\":\"a\",\"text\":\"milk\",\"completed\":false,\"createdAt\":1e999}]'') =
      Some (JArray [JObject [(js ''id'', JString (js ''a'')), (js ''text'', JString (js ''milk'')),
                                (js ''completed'', JBool False), (js ''createdAt'', JNumber PosInfinity)]])"
    unfolding t by (rule parse_stored_task) (rule parse_value_number, rule parse_number_1e999)
  with ne show ?thesis
    by (simp add: load_def todosValue_def todoValue_def task_inf_def)
qed

text \<open>
  C5, as amended. For every collection of tasks with any ids, texts and flags, also the
  empty one, whose timestamps are Number values (\<open>isDouble\<close>): what \<open>load\<close> returns
  after \<open>save\<close> is the saved collection, field for field, exactly when every timestamp is
  finite and not \<open>-0\<close>; fractions and whole numbers beyond \<open>2^53\<close> are among them. What
  \<open>load\<close> returns is then the value of no other collection.
\<close>

theorem load_save_roundtrip:
  assumes "\<forall>t \<in> set ts. isDouble (createdAt t)"
  shows "((\<forall>t \<in> set ts. isFinite (createdAt t) \<and> createdAt t \<noteq> NegZero) \<longrightarrow>
            load (save (todosValue ts) ls) = todosValue ts \<and>
            (\<forall>ts'. load (save (todosValue ts) ls) = todosValue ts' \<longrightarrow> ts' = ts)) \<and>
         (load (save (todosValue ts) ls) = todosValue ts \<longrightarrow>
            (\<forall>t \<in> set ts. isFinite (createdAt t) \<and> createdAt t \<noteq> NegZero))"
proof (intro conjI impI)
  assume c: "\<forall>t \<in> set ts. isFinite (createdAt t) \<and> createdAt t \<noteq> NegZero"
  then show l: "load (save (todosValue ts) ls) = todosValue ts"
    by (simp add: load_save_reloaded [OF assms]) (simp add: todosValue_def todoValue_def)
  show "\<forall>ts'. load (save (todosValue ts) ls) = todosValue ts' \<longrightarrow> ts' = ts"
    unfolding l using todosValue_inj by blast
next
  assume "load (save (todosValue ts) ls) = todosValue ts"
  then have "map (\<lambda>t. JObject [(js ''id'', JString (todo_id t)), (js ''text'', JString (todo_text t)),
                            (js ''completed'', JBool (completed t)),
                            (js ''createdAt'',
                               if isFinite (createdAt t)
                               then JNumber (if createdAt t = NegZero then Finite 0 else createdAt t)
                               else JNull)]) ts = map todoValue ts"
    unfolding load_save_reloaded [OF assms] by (simp only: todosValue_def jsvalue.inject)
  then have e: "(if isFinite (createdAt t)
       then JNumber (if createdAt t = NegZero then Finite 0 else createdAt t)
       else JNull) = JNumber (createdAt t)" if "t \<in> set ts" for t
    using that by (simp only: map_eq_conv) (simp add: todoValue_def)
  show "\<forall>t \<in> set ts. isFinite (createdAt t) \<and> createdAt t \<noteq> NegZero"
  proof
    fix t assume "t \<in> set ts"
    from e [OF this] show "isFinite (createdAt t) \<and> createdAt t \<noteq> NegZero"
      by (cases "isFinite (createdAt t)"; cases "createdAt t = NegZero") simp_all
  qed
qed

theorem load_save_roundtrip_witness:
  "todos (addTodo 5 (js ''0.k3'') 1700000000000 (setNewTodo (js '' x '') state0)) =
     [\<lparr>todo_id = js ''5k3'', todo_text = js ''x'', completed = False,
        createdAt = Finite 1700000000000\<rparr>, task_a, task_b] \<and>
   isDouble (Finite 1700000000000) \<and> isDouble (createdAt task_a) \<and> isDouble (createdAt task_b) \<and>
   isDouble (createdAt task_frac) \<and> isDouble (createdAt task_big) \<and>
   load (save (todosValue (todos (addTodo 5 (js ''0.k3'') 1700000000000
                                    (setNewTodo (js '' x '') state0)) @ [task_frac, task_big]))
           Map.empty) =
     todosValue (todos (addTodo 5 (js ''0.k3'') 1700000000000 (setNewTodo (js '' x '') state0)) @
                 [task_frac, task_big]) \<and>
   load (save (todosValue []) Map.empty) = todosValue []"
proof -
  have gen: "generateId 5 (js ''0.k3'') = js ''5k3''"
    by (simp add: generateId_def toString36_def digits36.simps digit36_def js_def)
  have ne: "js ''x'' \<noteq> []" by (simp add: js_def)
  have t: "todos (addTodo 5 (js ''0.k3'') 1700000000000 (setNewTodo (js '' x '') state0)) =
     [\<lparr>todo_id = js ''5k3'', todo_text = js ''x'', completed = False,
        createdAt = Finite 1700000000000\<rparr>, task_a, task_b]"
    using ne by (simp add: addTodo_def setNewTodo_def Let_def trim_x gen state0_def)
  have "isSafeInteger (Finite 1700000000000)" "isSafeInteger (createdAt task_a)"
    "isSafeInteger (createdAt task_b)"
    by (simp_all add: task_a_def task_b_def)
  then have a: "isDouble (Finite 1700000000000)" "isDouble (createdAt task_a)"
    "isDouble (createdAt task_b)"
    by (simp_all only: isSafeInteger_isDouble)
  have "roundPos (3400000000001 / 2) = Some (3400000000001 / 2)"
    by (rule roundPos_exact [of 40 _ 6963200000002048]) simp_all
  then have f: "isDouble (createdAt task_frac)" by (simp add: task_frac_def)
  have "roundPos (10 ^ 21) = Some (10 ^ 21)"
    by (rule roundPos_exact [of 69 _ 7629394531250000]) simp_all
  then have b: "isDouble (createdAt task_big)" by (simp add: task_big_def)
  have d: "\<forall>u \<in> set (todos (addTodo 5 (js ''0.k3'') 1700000000000
                                   (setNewTodo (js '' x '') state0)) @ [task_frac, task_big]).
             isDouble (createdAt u)"
    unfolding t using a f b by simp
  have c: "\<forall>u \<in> set (todos (addTodo 5 (js ''0.k3'') 1700000000000
                                   (setNewTodo (js '' x '') state0)) @ [task_frac, task_big]).
             isFinite (createdAt u) \<and> createdAt u \<noteq> NegZero"
    unfolding t by (simp add: task_a_def task_b_def task_frac_def task_big_def)
  from load_save_roundtrip [OF d, of Map.empty] c
  have l: "load (save (todosValue (todos (addTodo 5 (js ''0.k3'') 1700000000000
                                    (setNewTodo (js '' x '') state0)) @ [task_frac, task_big]))
           Map.empty) =
     todosValue (todos (addTodo 5 (js ''0.k3'') 1700000000000 (setNewTodo (js '' x '') state0)) @
                 [task_frac, task_big])"
    by blast
  from load_save_roundtrip [of "[]" Map.empty]
  have e: "load (save (todosValue []) Map.empty) = todosValue []" by simp
  from t a f b l e show ?thesis by (intro conjI)
qed

text \<open>
  C5 as stated fails for the timestamps that the amended statement leaves out. The stored
  text with \<open>1e999\<close> hydrates a task whose timestamp is \<open>Infinity\<close>, a number for the type
  \<open>Todo\<close>; \<open>JSON.stringify\<close> writes \<open>null\<close> for it, as for \<open>-Infinity\<close> and \<open>NaN\<close>,
  and loading gives a task whose \<open>createdAt\<close> is \<open>null\<close>. \<open>-0\<close> is written \<open>0\<close> and comes
  back as \<open>+0\<close>, which \<open>===\<close> does not tell from \<open>-0\<close> but \<open>Object.is\<close> does.
\<close>

theorem load_save_nonfinite_counterexample:
  \<open>load (Map.empty(STORAGE_KEY \<mapsto>
      js ''[{"id":"a","text":"milk","completed":false,"createdAt":1e999}]'')) =
     todosValue [task_inf] \<and>
   load (save (todosValue [task_inf]) Map.empty) =
     JArray [JObject [(js ''id'', JString (js ''a'')), (js ''text'', JString (js ''milk'')),
                      (js ''completed'', JBool False), (js ''createdAt'', JNull)]] \<and>
   load (save (todosValue [task_inf]) Map.empty) \<noteq> todosValue [task_inf] \<and>
   load (save (todosValue [task_inf\<lparr>createdAt := NegInfinity\<rparr>]) Map.empty) =
     JArray [JObject [(js ''id'', JString (js ''a'')), (js ''text'', JString (js ''milk'')),
                      (js ''completed'', JBool False), (js ''createdAt'', JNull)]] \<and>
   load (save (todosValue [task_inf\<lparr>createdAt := NaN\<rparr>]) Map.empty) =
     JArray [JObject [(js ''id'', JString (js ''a'')), (js ''text'', JString (js ''milk'')),
                      (js ''completed'', JBool False), (js ''createdAt'', JNull)]] \<and>
   load (save (todosValue [task_inf\<lparr>createdAt := NegZero\<rparr>]) Map.empty) =
     todosValue [task_inf\<lparr>createdAt := Finite 0\<rparr>] \<and>
   todosValue [task_inf\<lparr>createdAt := Finite 0\<rparr>] \<noteq>
     todosValue [task_inf\<lparr>createdAt := NegZero\<rparr>]\<close>
proof -
  have r: "load (save (todosValue [t]) Map.empty) =
      JArray [JObject [(js ''id'', JString (todo_id t)), (js ''text'', JString (todo_text t)),
                       (js ''completed'', JBool (completed t)),
                       (js ''createdAt'',
                          if isFinite (createdAt t)
                          then JNumber (if createdAt t = NegZero then Finite 0 else createdAt t)
                          else JNull)]]"
    if "isDouble (createdAt t)" for t
    using load_save_reloaded [of "[t]" Map.empty] that by simp
  have i: "load (save (todosValue [task_inf]) Map.empty) =
     JArray [JObject [(js ''id'', JString (js ''a'')), (js ''text'', JString (js ''milk'')),
                      (js ''completed'', JBool False), (js ''createdAt'', JNull)]]"
    by (subst r) (simp_all add: task_inf_def)
  have n: "load (save (todosValue [task_inf\<lparr>createdAt := NegInfinity\<rparr>]) Map.empty) =
     JArray [JObject [(js ''id'', JString (js ''a'')), (js ''text'', JString (js ''milk'')),
                      (js ''completed'', JBool False), (js ''createdAt'', JNull)]]"
    by (subst r) (simp_all add: task_inf_def)
  have a: "load (save (todosValue [task_inf\<lparr>createdAt := NaN\<rparr>]) Map.empty) =
     JArray [JObject [(js ''id'', JString (js ''a'')), (js ''text'', JString (js ''milk'')),
                      (js ''completed'', JBool False), (js ''createdAt'', JNull)]]"
    by (subst r) (simp_all add: task_inf_def)
  have z: "load (save (todosValue [task_inf\<lparr>createdAt := NegZero\<rparr>]) Map.empty) =
     todosValue [task_inf\<lparr>createdAt := Finite 0\<rparr>]"
    by (subst r) (simp_all add: task_inf_def todosValue_def todoValue_def)
  have d: "load (save (todosValue [task_inf]) Map.empty) \<noteq> todosValue [task_inf]"
    unfolding i by (simp add: todosValue_def todoValue_def)
  have d0: "todosValue [task_inf\<lparr>createdAt := Finite 0\<rparr>] \<noteq>
     todosValue [task_inf\<lparr>createdAt := NegZero\<rparr>]"
    by (simp add: todosValue_def todoValue_def)
  from stored_infinity i d n a z d0 show ?thesis by (intro conjI)
qed

text \<open>
  C6. \<open>load\<close> falls back to the empty collection when the key is missing, when the
  stored string is empty and when the stored string is not a JSON text. For a JSON text
  that is no array the fallback is missing: \<open>load\<close> returns \<open>null\<close> for the text \<open>null\<close>
  and an empty object for the text \<open>{}\<close>, and the \<open>todos.filter\<close> of the first render
  throws a \<open>TypeError\<close>, where the claim has the empty collection and no error.
\<close>

theorem load_foreign_json:
  "load Map.empty = JArray [] \<and>
   load (Map.empty(STORAGE_KEY \<mapsto> [])) = JArray [] \<and>
   load (Map.empty(STORAGE_KEY \<mapsto> js ''{oops'')) = JArray [] \<and>
   load (Map.empty(STORAGE_KEY \<mapsto> js ''null'')) = JNull \<and>
   load (Map.empty(STORAGE_KEY \<mapsto> js ''{}'')) = JObject [] \<and>
   filter_call (load (Map.empty(STORAGE_KEY \<mapsto> js ''null''))) = Inl TypeError \<and>
   filter_call (load (Map.empty(STORAGE_KEY \<mapsto> js ''{}''))) = Inl TypeError \<and>
   filter_call (load (Map.empty(STORAGE_KEY \<mapsto> js ''{oops''))) = Inr []"
proof -
  have "parse_value (Suc (Suc 0)) (js ''{oops'') = SyntaxError"
    by (simp add: parse_Suc js_def skip_ws_def isJSONWhiteSpace_def)
  then have bad: "JSON_parse (js ''{oops'') = None" by (rule JSON_parse_SyntaxError)
  have "parse_value (Suc 0) (js ''null'' @ []) = Parsed JNull []" by (rule parse_value_null)
  then have n: "JSON_parse (js ''null'') = Some JNull" by (simp add: JSON_parse_Parsed)
  have "parse_value (Suc 0) (js ''{}'') = Parsed (JObject []) []"
    by (simp add: parse_Suc js_def)
  then have ob: "JSON_parse (js ''{}'') = Some (JObject [])" by (rule JSON_parse_Parsed) simp
  have l: "load Map.empty = JArray []" "load (Map.empty(STORAGE_KEY \<mapsto> [])) = JArray []"
    "load (Map.empty(STORAGE_KEY \<mapsto> js ''{oops'')) = JArray []"
    "load (Map.empty(STORAGE_KEY \<mapsto> js ''null'')) = JNull"
    "load (Map.empty(STORAGE_KEY \<mapsto> js ''{}'')) = JObject []"
    using bad n ob by (simp_all add: load_def) (simp_all add: js_def)
  then show ?thesis by simp
qed

end
